theory Spec2Isabelle
  imports Main "HOL-Library.Multiset"
begin

section \<open>sqlite-scanner: errors, the operating system, the header prober\<close>

subsection \<open>Go errors\<close>

text \<open>
  Failures of the operating system are \<open>errno\<close> values. The Go \<open>error\<close> values the
  program handles are: the two end-of-file sentinels of package \<open>io\<close>, an operating-system
  error (\<open>*fs.PathError\<close> around an errno), the wrapper built by
  \<open>fmt.Errorf("%s: %w", p, err)\<close>, the value built by \<open>errors.Join\<close>, and the two
  sentinels \<open>filepath.SkipDir\<close> and \<open>filepath.SkipAll\<close> that \<open>filepath.WalkDir\<close> looks for.
  \<open>None\<close> of type \<open>go_error option\<close> is Go's \<open>nil\<close> error.
\<close>

datatype errno = EACCES | EPERM | ENOENT | ENOTDIR | EISDIR | EIO | ELOOP

datatype go_error =
    EOF
  | ErrUnexpectedEOF
  | PathError errno
  | Errorf string go_error
  | joinError "go_error list"
  | SkipDir
  | SkipAll

text \<open>\<open>errors.Is(err, fs.ErrPermission)\<close>: an errno matches \<open>fs.ErrPermission\<close> when it is
  \<open>EACCES\<close> or \<open>EPERM\<close>; \<open>errors.Is\<close> looks through \<open>%w\<close> wrappers and into every
  member of a joined error.\<close>

fun is_ErrPermission :: "go_error \<Rightarrow> bool" where
  "is_ErrPermission EOF = False"
| "is_ErrPermission ErrUnexpectedEOF = False"
| "is_ErrPermission (PathError e) = (e = EACCES \<or> e = EPERM)"
| "is_ErrPermission (Errorf p e) = is_ErrPermission e"
| "is_ErrPermission (joinError es) = list_ex is_ErrPermission es"
| "is_ErrPermission SkipDir = False"
| "is_ErrPermission SkipAll = False"

text \<open>\<open>errors.Is(err, io.EOF) || errors.Is(err, io.ErrUnexpectedEOF)\<close>.\<close>

fun is_EOF :: "go_error \<Rightarrow> bool" where
  "is_EOF EOF = True"
| "is_EOF ErrUnexpectedEOF = True"
| "is_EOF (PathError e) = False"
| "is_EOF (Errorf p e) = is_EOF e"
| "is_EOF (joinError es) = list_ex is_EOF es"
| "is_EOF SkipDir = False"
| "is_EOF SkipAll = False"

text \<open>\<open>errors.Join(a, b)\<close>: nil arguments are discarded; the result is nil when none is
  left, and otherwise one joined error holding the others in argument order.\<close>

definition errors_Join :: "go_error option \<Rightarrow> go_error option \<Rightarrow> go_error option" where
  "errors_Join a b =
     (case List.map_filter id [a, b] of [] \<Rightarrow> None | es \<Rightarrow> Some (joinError es))"

subsection \<open>The operating system\<close>

text \<open>
  A file: the bytes it holds, the optional failure of \<open>os.Open\<close> on it, an optional
  read fault \<open>(k, e)\<close> (the device delivers the first \<open>k\<close> bytes and then fails with
  \<open>e\<close>), and an optional fault of \<open>f.Stat()\<close>. A byte is a \<open>char\<close>.
\<close>

record os_File =
  content :: string
  open_fault :: "errno option"
  read_fault :: "(nat \<times> errno) option"
  stat_fault :: "errno option"

text \<open>What \<open>os.Lstat\<close> and \<open>os.ReadDir\<close> show of a tree: a regular file, an entry that
  is neither regular nor a directory (symbolic link, device, socket, pipe), or a directory
  with the named entries \<open>os.ReadDir\<close> returns and the error it returns with them.\<close>

datatype fnode =
    Regular
  | Irregular
  | Dir "(string \<times> fnode) list" "errno option"

text \<open>The file a path names (if any), the calls of the standard library that reach the
  operating system, and \<open>filepath.Join\<close>, are parameters of the model.\<close>

record os_env =
  files :: "string \<Rightarrow> os_File option"
  os_Stat :: "string \<Rightarrow> errno + unit"
  os_Lstat :: "string \<Rightarrow> errno + fnode"
  filepath_EvalSymlinks :: "string \<Rightarrow> errno + string"
  filepath_Abs :: "string \<Rightarrow> errno + string"
  filepath_Join :: "string \<Rightarrow> string \<Rightarrow> string"

text \<open>\<open>os.Open(path)\<close>: fails with \<open>ENOENT\<close> when the path names no file, and with the
  file's open fault when it has one.\<close>

definition os_Open :: "os_env \<Rightarrow> string \<Rightarrow> errno + os_File" where
  "os_Open env path =
     (case files env path of
        None \<Rightarrow> Inl ENOENT
      | Some f \<Rightarrow> (case open_fault f of Some e \<Rightarrow> Inl e | None \<Rightarrow> Inr f))"

text \<open>\<open>io.ReadFull(f, buf)\<close> with \<open>len(buf) = n\<close>: the \<open>n\<close> bytes when the file delivers
  them. Otherwise the device's error, when the read fault lies within the file; and when
  the file ends first, \<open>io.EOF\<close> if it ended before any byte and \<open>io.ErrUnexpectedEOF\<close> if
  it ended after some.\<close>

definition io_ReadFull :: "os_File \<Rightarrow> nat \<Rightarrow> go_error + string" where
  "io_ReadFull f n =
     (let at_end = (if content f = [] then Inl EOF else Inl ErrUnexpectedEOF) in
      case read_fault f of
        None \<Rightarrow>
          if n \<le> length (content f) then Inr (take n (content f)) else at_end
      | Some (k, e) \<Rightarrow>
          if n \<le> min k (length (content f)) then Inr (take n (content f))
          else if k \<le> length (content f) then Inl (PathError e)
          else at_end)"

text \<open>\<open>f.Stat()\<close> followed by \<open>info.Size()\<close>: the length of the file in bytes.\<close>

definition file_Stat :: "os_File \<Rightarrow> go_error + int" where
  "file_Stat f =
     (case stat_fault f of
        Some e \<Rightarrow> Inl (PathError e)
      | None \<Rightarrow> Inr (int (length (content f))))"

subsection \<open>main.go: sqliteMagic, matchResult, checkSQLiteMagic\<close>

definition sqliteMagic :: string where
  "sqliteMagic = ''SQLite format 3'' @ [CHR 0x00]"

record matchResult =
  Path :: string
  Size :: int

text \<open>The zero value \<open>matchResult{}\<close>.\<close>

definition matchResult_zero :: matchResult where
  "matchResult_zero = \<lparr>Path = [], Size = 0\<rparr>"

definition checkSQLiteMagic :: "os_env \<Rightarrow> string \<Rightarrow> matchResult \<times> bool \<times> go_error option" where
  "checkSQLiteMagic env path =
     (case os_Open env path of
        Inl e \<Rightarrow> (matchResult_zero, False, Some (PathError e))
      | Inr f \<Rightarrow>
          (case io_ReadFull f (length sqliteMagic) of
             Inl err \<Rightarrow>
               if is_EOF err then (matchResult_zero, False, None)
               else (matchResult_zero, False, Some err)
           | Inr buf \<Rightarrow>
               if buf \<noteq> sqliteMagic then (matchResult_zero, False, None)
               else
                 (case file_Stat f of
                    Inl err \<Rightarrow> (matchResult_zero, False, Some err)
                  | Inr sz \<Rightarrow> (\<lparr>Path = path, Size = sz\<rparr>, True, None))))"

subsection \<open>main.go: resolveRoots\<close>

text \<open>The loop of \<open>resolveRoots\<close>, with its two variables: the list \<open>resolved\<close> and the
  set \<open>seen\<close>.\<close>

fun resolveRoots_loop :: "os_env \<Rightarrow> string list \<Rightarrow> string list \<Rightarrow> string set \<Rightarrow> string list" where
  "resolveRoots_loop env [] resolved seen = resolved"
| "resolveRoots_loop env (root # roots) resolved seen =
     (let r = (case filepath_EvalSymlinks env root of Inr resolvedRoot \<Rightarrow> resolvedRoot | Inl e \<Rightarrow> root)
      in case os_Stat env r of
           Inr u \<Rightarrow>
             if r \<in> seen then resolveRoots_loop env roots resolved seen
             else resolveRoots_loop env roots (resolved @ [r]) (insert r seen)
         | Inl e \<Rightarrow>
             if root \<in> seen then resolveRoots_loop env roots resolved seen
             else resolveRoots_loop env roots (resolved @ [root]) (insert root seen))"

definition resolveRoots :: "os_env \<Rightarrow> string list \<Rightarrow> string list" where
  "resolveRoots env roots = resolveRoots_loop env roots [] {}"

section \<open>The result sink: formatters and streamMatches\<close>

subsection \<open>fmt and encoding/json\<close>

text \<open>\<open>%d\<close> of an \<open>int64\<close> (\<open>strconv.FormatInt(n, 10)\<close>): the decimal digits, most
  significant first, after a minus sign when the number is negative. No arithmetic is done
  on sizes, so \<open>int\<close> stands for \<open>int64\<close>.\<close>

definition digit_char :: "nat \<Rightarrow> char" where
  "digit_char d = ''0123456789'' ! d"

fun decimal :: "nat \<Rightarrow> string" where
  "decimal n = (if n < 10 then [digit_char n] else decimal (n div 10) @ [digit_char (n mod 10)])"

declare decimal.simps [simp del]

definition format_int :: "int \<Rightarrow> string" where
  "format_int i = (if i < 0 then CHR ''-'' # decimal (nat (- i)) else decimal (nat i))"

abbreviation dquote :: char where "dquote \<equiv> CHR 0x22"
abbreviation backslash :: char where "backslash \<equiv> CHR 0x5C"
abbreviation newline :: char where "newline \<equiv> CHR 0x0A"

definition hex_digit :: "nat \<Rightarrow> char" where
  "hex_digit d = ''0123456789abcdef'' ! d"

text \<open>\<open>utf8.DecodeRuneInString\<close> on a string whose first byte is not ASCII: the rune and
  the number of bytes of a well-formed encoding, and \<open>(RuneError, 1)\<close> for anything else.\<close>

definition RuneError :: nat where
  "RuneError = 0xFFFD"

definition is_cont :: "nat \<Rightarrow> nat \<Rightarrow> char \<Rightarrow> bool" where
  "is_cont lo hi c = (lo \<le> (of_char c :: nat) \<and> (of_char c :: nat) \<le> hi)"

definition utf8_DecodeRune :: "string \<Rightarrow> nat \<times> nat" where
  "utf8_DecodeRune s =
     (case s of
        [] \<Rightarrow> (RuneError, 0)
      | c0 # s' \<Rightarrow>
          let s0 = (of_char c0 :: nat) in
          if s0 < 0x80 then (s0, 1)
          else if s0 < 0xC2 \<or> 0xF4 < s0 then (RuneError, 1)
          else if s0 < 0xE0 then
            (case s' of
               c1 # r \<Rightarrow>
                 if is_cont 0x80 0xBF c1
                 then ((s0 mod 32) * 64 + (of_char c1 :: nat) mod 64, 2)
                 else (RuneError, 1)
             | [] \<Rightarrow> (RuneError, 1))
          else if s0 < 0xF0 then
            (case s' of
               c1 # c2 # r \<Rightarrow>
                 if is_cont (if s0 = 0xE0 then 0xA0 else 0x80) (if s0 = 0xED then 0x9F else 0xBF) c1
                    \<and> is_cont 0x80 0xBF c2
                 then ((s0 mod 16) * 4096 + ((of_char c1 :: nat) mod 64) * 64
                         + (of_char c2 :: nat) mod 64, 3)
                 else (RuneError, 1)
             | _ \<Rightarrow> (RuneError, 1))
          else
            (case s' of
               c1 # c2 # c3 # r \<Rightarrow>
                 if is_cont (if s0 = 0xF0 then 0x90 else 0x80) (if s0 = 0xF4 then 0x8F else 0xBF) c1
                    \<and> is_cont 0x80 0xBF c2 \<and> is_cont 0x80 0xBF c3
                 then ((s0 mod 8) * 262144 + ((of_char c1 :: nat) mod 64) * 4096
                         + ((of_char c2 :: nat) mod 64) * 64 + (of_char c3 :: nat) mod 64, 4)
                 else (RuneError, 1)
             | _ \<Rightarrow> (RuneError, 1)))"

text \<open>How \<open>encoding/json\<close> writes one ASCII byte inside a string (with its default HTML
  escaping): quote and backslash behind a backslash, the short escapes, \<open>\u00XX\<close> for the
  other control bytes and for \<open><\<close>, \<open>>\<close>, \<open>&\<close>, and every other byte as it is.\<close>

definition json_escape_byte :: "char \<Rightarrow> string" where
  "json_escape_byte b =
     (if b = dquote \<or> b = backslash then [backslash, b]
      else if b = CHR 0x08 then [backslash, CHR ''b'']
      else if b = CHR 0x0C then [backslash, CHR ''f'']
      else if b = CHR 0x0A then [backslash, CHR ''n'']
      else if b = CHR 0x0D then [backslash, CHR ''r'']
      else if b = CHR 0x09 then [backslash, CHR ''t'']
      else if (of_char b :: nat) < 0x20 \<or> b = CHR ''<'' \<or> b = CHR ''>'' \<or> b = CHR ''&''
        then [backslash, CHR ''u'', CHR ''0'', CHR ''0'',
              hex_digit ((of_char b :: nat) div 16), hex_digit ((of_char b :: nat) mod 16)]
      else [b])"

text \<open>The body of a JSON string as \<open>encoding/json\<close> writes it: ASCII bytes escaped as
  above; a byte that starts no well-formed UTF-8 sequence replaced by the escape of U+FFFD;
  U+2028 and U+2029 written as their escapes; every other well-formed sequence copied.\<close>

function json_appendString :: "string \<Rightarrow> string" where
  "json_appendString [] = []"
| "json_appendString (b # bs) =
     (if (of_char b :: nat) < 0x80 then json_escape_byte b @ json_appendString bs
      else
        (case utf8_DecodeRune (b # bs) of
           (c, sz) \<Rightarrow>
             if c = RuneError \<and> sz = 1
               then [backslash, CHR ''u'', CHR ''f'', CHR ''f'', CHR ''f'', CHR ''d'']
                    @ json_appendString bs
             else if c = 0x2028 \<or> c = 0x2029
               then [backslash, CHR ''u'', CHR ''2'', CHR ''0'', CHR ''2'', hex_digit (c mod 16)]
                    @ json_appendString (drop (sz - 1) bs)
             else take sz (b # bs) @ json_appendString (drop (sz - 1) bs)))"
  by pat_completeness auto
termination
  by (relation "measure length") auto

text \<open>\<open>marshalString\<close>: \<open>json.Marshal\<close> of a string never fails and yields the quoted
  body.\<close>

definition marshalString :: "string \<Rightarrow> string" where
  "marshalString v = dquote # json_appendString v @ [dquote]"

subsection \<open>main.go: formatPath and the three formatters\<close>

definition formatPath :: "os_env \<Rightarrow> string \<Rightarrow> string" where
  "formatPath env path = (case filepath_Abs env path of Inr ap \<Rightarrow> ap | Inl err \<Rightarrow> path)"

definition formatJSONLine :: "os_env \<Rightarrow> matchResult \<Rightarrow> bool \<Rightarrow> string" where
  "formatJSONLine env m showSize =
     (let path = formatPath env (Path m) in
      if showSize
        then ''{'' @ [dquote] @ ''path'' @ [dquote] @ '': '' @ marshalString path @ '', ''
             @ [dquote] @ ''size'' @ [dquote] @ '': '' @ format_int (Size m) @ ''}''
      else ''{'' @ [dquote] @ ''path'' @ [dquote] @ '': '' @ marshalString path @ ''}'')"

definition formatJSONEntry :: "os_env \<Rightarrow> matchResult \<Rightarrow> bool \<Rightarrow> string" where
  "formatJSONEntry env m showSize =
     (let path = formatPath env (Path m) in
      if showSize
        then ''    {'' @ [newline] @ ''      '' @ [dquote] @ ''path'' @ [dquote] @ '': ''
             @ marshalString path @ '','' @ [newline]
             @ ''      '' @ [dquote] @ ''size'' @ [dquote] @ '': '' @ format_int (Size m)
             @ [newline] @ ''    }''
      else ''    {'' @ [newline] @ ''      '' @ [dquote] @ ''path'' @ [dquote] @ '': ''
           @ marshalString path @ [newline] @ ''    }'')"

definition formatPlainMatch :: "os_env \<Rightarrow> matchResult \<Rightarrow> bool \<Rightarrow> string" where
  "formatPlainMatch env m showSize =
     (let path = formatPath env (Path m) in
      if \<not> showSize then path
      else path @ '' ('' @ format_int (Size m) @ '' bytes)'')"

subsection \<open>main.go: streamMatches\<close>

text \<open>The channel \<open>matches\<close> is the list of the records received from it until it is
  closed; the result is the text written to standard output. \<open>fmt.Println\<close> writes its
  argument and a newline.\<close>

definition Println :: "string \<Rightarrow> string" where
  "Println s = s @ [newline]"

text \<open>The loop \<open>for next := range matches\<close> of the pretty-JSON mode, with the record
  \<open>curr\<close> (here \<open>cur\<close>) it holds back, and the \<open>Println\<close> of the last record after it.\<close>

fun streamMatches_entries :: "os_env \<Rightarrow> bool \<Rightarrow> matchResult \<Rightarrow> matchResult list \<Rightarrow> string" where
  "streamMatches_entries env showSize cur [] = Println (formatJSONEntry env cur showSize)"
| "streamMatches_entries env showSize cur (next # rest) =
     (formatJSONEntry env cur showSize @ '','' @ [newline])
     @ streamMatches_entries env showSize next rest"

definition streamMatches :: "os_env \<Rightarrow> matchResult list \<Rightarrow> bool \<Rightarrow> bool \<Rightarrow> bool \<Rightarrow> string" where
  "streamMatches env matches jsonOutput jsonl showSize =
     (if jsonl then concat (map (\<lambda>m. Println (formatJSONLine env m showSize)) matches)
      else if jsonOutput then
        Println ''{''
        @ Println (''  '' @ [dquote] @ ''entries'' @ [dquote] @ '': ['')
        @ (case matches of
             [] \<Rightarrow> []
           | first # rest \<Rightarrow> streamMatches_entries env showSize first rest)
        @ Println ''  ]''
        @ Println ''}''
      else concat (map (\<lambda>m. Println (formatPlainMatch env m showSize)) matches))"

section \<open>The scan pipeline\<close>

subsection \<open>filepath.WalkDir and the callback of scanPaths\<close>

text \<open>A callback of \<open>filepath.WalkDir\<close> gets a path, a directory entry (nil when
  \<open>os.Lstat\<close> of the root failed) and an error. The one of \<open>scanPaths\<close> has one effect, the
  send \<open>paths <- path\<close>: it is modelled by the list of the paths sent, next to the error
  returned.\<close>

type_synonym walk_fn = "string \<Rightarrow> fnode option \<Rightarrow> go_error option \<Rightarrow> string list \<times> go_error option"

text \<open>\<open>d.Type().IsRegular()\<close>. The callback reads the entry only when the error is
  nil, and then \<open>filepath.WalkDir\<close> has passed an entry.\<close>

fun IsRegular :: "fnode option \<Rightarrow> bool" where
  "IsRegular (Some Regular) = True"
| "IsRegular d = False"

definition walkFn :: walk_fn where
  "walkFn path d err =
     (case err of
        Some e \<Rightarrow> if is_ErrPermission e then ([], None) else ([], Some e)
      | None \<Rightarrow> if IsRegular d then ([path], None) else ([], None))"

text \<open>\<open>walkDir\<close> of package \<open>path/filepath\<close>: the callback on the entry; for a directory
  (\<open>d.IsDir()\<close>, the third equation) \<open>os.ReadDir\<close>, a second call of the callback when
  that failed, and the entries in order, each under the joined path. \<open>walkDir_entries\<close>
  is its loop over the entries.\<close>

fun walkDir :: "os_env \<Rightarrow> walk_fn \<Rightarrow> string \<Rightarrow> fnode \<Rightarrow> string list \<times> go_error option"
  and walkDir_entries :: "os_env \<Rightarrow> walk_fn \<Rightarrow> string \<Rightarrow> (string \<times> fnode) list \<Rightarrow> string list \<times> go_error option"
where
  "walkDir env fn path Regular = fn path (Some Regular) None"
| "walkDir env fn path Irregular = fn path (Some Irregular) None"
| "walkDir env fn path (Dir dirs rerr) =
     (case fn path (Some (Dir dirs rerr)) None of
        (out1, Some err) \<Rightarrow> (out1, if err = SkipDir then None else Some err)
      | (out1, None) \<Rightarrow>
          (case (case rerr of
                   None \<Rightarrow> ([], None)
                 | Some e \<Rightarrow> fn path (Some (Dir dirs rerr)) (Some (PathError e))) of
             (out2, Some err) \<Rightarrow> (out1 @ out2, if err = SkipDir then None else Some err)
           | (out2, None) \<Rightarrow>
               (case walkDir_entries env fn path dirs of
                  (out3, err) \<Rightarrow> (out1 @ out2 @ out3, err))))"
| "walkDir_entries env fn path [] = ([], None)"
| "walkDir_entries env fn path ((name, d1) # rest) =
     (case walkDir env fn (filepath_Join env path name) d1 of
        (out1, Some err) \<Rightarrow> if err = SkipDir then (out1, None) else (out1, Some err)
      | (out1, None) \<Rightarrow>
          (case walkDir_entries env fn path rest of
             (out2, err) \<Rightarrow> (out1 @ out2, err)))"

text \<open>\<open>filepath.WalkDir(root, fn)\<close>.\<close>

definition filepath_WalkDir :: "os_env \<Rightarrow> string \<Rightarrow> walk_fn \<Rightarrow> string list \<times> go_error option" where
  "filepath_WalkDir env root fn =
     (case (case os_Lstat env root of
              Inl e \<Rightarrow> fn root None (Some (PathError e))
            | Inr info \<Rightarrow> walkDir env fn root info) of
        (out, err) \<Rightarrow> (out, if err = Some SkipDir \<or> err = Some SkipAll then None else err))"

subsection \<open>scanPaths with its consumers: goroutines and channels\<close>

text \<open>
  The goroutines of \<open>scanPaths\<close> and of its two callers run interleaved; a state holds what
  each of them has left to do and what the three channels hold, and a step is one
  communication or one completion of one goroutine.

  A walker goroutine runs \<open>filepath.WalkDir\<close> on its root: it still has paths to send on
  \<open>paths\<close> and then the error of the walk to record, or it has called \<open>walkWg.Done()\<close>.
\<close>

datatype walker = Walking "string list" "go_error option" | WalkDone

text \<open>A worker goroutine is at the head of its loop \<open>for p := range paths\<close>, or blocked in
  \<open>errs <- ...\<close> or in \<open>matches <- res\<close>, or has called \<open>workerWg.Done()\<close>.\<close>

datatype worker = Receiving | SendingErr go_error | SendingMatch matchResult | Exited

text \<open>The caller: \<open>findSQLiteFiles\<close> (its goroutines collect the matches and drain
  the errors) or \<open>main\<close> (its goroutines print the matches and warn of the errors).\<close>

datatype caller = FindSQLiteFiles | Main

text \<open>
  \<open>out\<close> is the slice of \<open>findSQLiteFiles\<close>, and for \<open>main\<close> the records handed to
  \<open>streamMatches\<close>; \<open>stderr\<close> holds the error of each line \<open>warning: err\<close> written;
  \<open>returned\<close> is the value \<open>scanPaths\<close> has returned, once it has. Two history variables
  record what happened: \<open>probed\<close>, the paths \<open>checkSQLiteMagic\<close> was called on, and
  \<open>errs_received\<close>, the errors taken from \<open>errs\<close>.
\<close>

record scan_state =
  walkers :: "walker list"
  walkErr :: "go_error option"
  ch_paths :: "string list"
  paths_closed :: bool
  pool :: "worker list"
  ch_matches :: "matchResult list"
  matches_closed :: bool
  ch_errs :: "go_error list"
  errs_closed :: bool
  returned :: "go_error option option"
  out :: "matchResult list"
  collector_done :: bool
  stderr :: "go_error list"
  drainer_done :: bool
  probed :: "string list"
  errs_received :: "go_error list"

text \<open>The body of the worker's loop for the path \<open>p\<close> it received: what the worker does
  next.\<close>

definition worker_after :: "os_env \<Rightarrow> string \<Rightarrow> worker" where
  "worker_after env p =
     (case checkSQLiteMagic env p of
        (res, ok, Some err) \<Rightarrow>
          if \<not> is_ErrPermission err then SendingErr (Errorf p err) else Receiving
      | (res, ok, None) \<Rightarrow>
          if ok then SendingMatch res else Receiving)"

text \<open>The start: one walker for each root, \<open>workers\<close> workers, empty open channels.\<close>

definition scan_init :: "os_env \<Rightarrow> nat \<Rightarrow> string list \<Rightarrow> scan_state" where
  "scan_init env workers roots =
     \<lparr>walkers = map (\<lambda>r. case filepath_WalkDir env r walkFn of (ps, err) \<Rightarrow> Walking ps err) roots,
      walkErr = None,
      ch_paths = [], paths_closed = False,
      pool = replicate workers Receiving,
      ch_matches = [], matches_closed = False,
      ch_errs = [], errs_closed = False,
      returned = None,
      out = [], collector_done = False,
      stderr = [], drainer_done = False,
      probed = [], errs_received = []\<rparr>"

text \<open>
  The steps. The channels have the capacities \<open>workers*4\<close>, \<open>workers*2\<close> and \<open>workers\<close>; a
  send needs room in an open channel, a receive needs an element, and a loop over a channel
  ends when the channel is closed and empty.
\<close>

inductive scan_step :: "os_env \<Rightarrow> nat \<Rightarrow> caller \<Rightarrow> scan_state \<Rightarrow> scan_state \<Rightarrow> bool"
  for env :: os_env and workers :: nat and c :: caller
where
  walker_send:
    "i < length (walkers s) \<Longrightarrow> walkers s ! i = Walking (p # ps) err \<Longrightarrow>
     length (ch_paths s) < workers * 4 \<Longrightarrow> \<not> paths_closed s \<Longrightarrow>
     scan_step env workers c s
       (s\<lparr>walkers := (walkers s)[i := Walking ps err], ch_paths := ch_paths s @ [p]\<rparr>)"
| walker_done:
    "i < length (walkers s) \<Longrightarrow> walkers s ! i = Walking [] err \<Longrightarrow>
     scan_step env workers c s
       (s\<lparr>walkers := (walkers s)[i := WalkDone],
          walkErr := (case err of None \<Rightarrow> walkErr s | Some e \<Rightarrow> errors_Join (walkErr s) (Some e))\<rparr>)"
| close_paths:
    "\<forall>w \<in> set (walkers s). w = WalkDone \<Longrightarrow> \<not> paths_closed s \<Longrightarrow>
     scan_step env workers c s (s\<lparr>paths_closed := True\<rparr>)"
| worker_receive:
    "i < length (pool s) \<Longrightarrow> pool s ! i = Receiving \<Longrightarrow> ch_paths s = p # ps \<Longrightarrow>
     scan_step env workers c s
       (s\<lparr>ch_paths := ps, pool := (pool s)[i := worker_after env p], probed := probed s @ [p]\<rparr>)"
| worker_exit:
    "i < length (pool s) \<Longrightarrow> pool s ! i = Receiving \<Longrightarrow> ch_paths s = [] \<Longrightarrow> paths_closed s \<Longrightarrow>
     scan_step env workers c s (s\<lparr>pool := (pool s)[i := Exited]\<rparr>)"
| worker_send_err:
    "i < length (pool s) \<Longrightarrow> pool s ! i = SendingErr e \<Longrightarrow>
     length (ch_errs s) < workers \<Longrightarrow> \<not> errs_closed s \<Longrightarrow>
     scan_step env workers c s
       (s\<lparr>pool := (pool s)[i := Receiving], ch_errs := ch_errs s @ [e]\<rparr>)"
| worker_send_match:
    "i < length (pool s) \<Longrightarrow> pool s ! i = SendingMatch m \<Longrightarrow>
     length (ch_matches s) < workers * 2 \<Longrightarrow> \<not> matches_closed s \<Longrightarrow>
     scan_step env workers c s
       (s\<lparr>pool := (pool s)[i := Receiving], ch_matches := ch_matches s @ [m]\<rparr>)"
| close_matches:
    "\<forall>w \<in> set (pool s). w = Exited \<Longrightarrow> \<not> matches_closed s \<Longrightarrow>
     scan_step env workers c s (s\<lparr>matches_closed := True\<rparr>)"
| close_errs_return:
    "matches_closed s \<Longrightarrow> \<not> errs_closed s \<Longrightarrow>
     scan_step env workers c s (s\<lparr>errs_closed := True, returned := Some (walkErr s)\<rparr>)"
| collect:
    "ch_matches s = m # ms \<Longrightarrow> \<not> collector_done s \<Longrightarrow>
     scan_step env workers c s (s\<lparr>ch_matches := ms, out := out s @ [m]\<rparr>)"
| collect_done:
    "ch_matches s = [] \<Longrightarrow> matches_closed s \<Longrightarrow> \<not> collector_done s \<Longrightarrow>
     scan_step env workers c s (s\<lparr>collector_done := True\<rparr>)"
| drain:
    "ch_errs s = e # es \<Longrightarrow> \<not> drainer_done s \<Longrightarrow>
     scan_step env workers c s
       (s\<lparr>ch_errs := es, errs_received := errs_received s @ [e],
          stderr := (case c of Main \<Rightarrow> stderr s @ [e] | FindSQLiteFiles \<Rightarrow> stderr s)\<rparr>)"
| drain_done:
    "ch_errs s = [] \<Longrightarrow> errs_closed s \<Longrightarrow> \<not> drainer_done s \<Longrightarrow>
     scan_step env workers c s (s\<lparr>drainer_done := True\<rparr>)"

text \<open>The states a run from the start can be in.\<close>

inductive reachable :: "os_env \<Rightarrow> nat \<Rightarrow> caller \<Rightarrow> string list \<Rightarrow> scan_state \<Rightarrow> bool"
  for env :: os_env and workers :: nat and c :: caller and roots :: "string list"
where
  reachable_init: "reachable env workers c roots (scan_init env workers roots)"
| reachable_step:
    "reachable env workers c roots s \<Longrightarrow> scan_step env workers c s s' \<Longrightarrow>
     reachable env workers c roots s'"

text \<open>The caller has its result when \<open>scanPaths\<close> has returned and both consumer
  goroutines have ended (\<open>collectWg.Wait()\<close>, \<open>drainWg.Wait()\<close>; in \<open>main\<close>,
  \<open>printWg.Wait()\<close>, \<open>warnWg.Wait()\<close>).\<close>

definition finished :: "scan_state \<Rightarrow> bool" where
  "finished s = (returned s \<noteq> None \<and> collector_done s \<and> drainer_done s)"

text \<open>What \<open>findSQLiteFiles\<close> returns from a finished state: \<open>out\<close> and \<open>walkErr\<close>.\<close>

definition findSQLiteFiles_result :: "scan_state \<Rightarrow> matchResult list \<times> go_error option" where
  "findSQLiteFiles_result s = (out s, (case returned s of Some e \<Rightarrow> e | None \<Rightarrow> None))"

text \<open>The steps as a function. An action names the goroutine that moves (the walker or
  the worker by its index); \<open>do_action\<close> makes the step when it is enabled, and
  \<open>run_schedule\<close> follows a list of actions. A schedule that runs through shows a run of
  the program.\<close>

datatype action =
    WalkerSend nat | WalkerDone nat | ClosePaths
  | WorkerReceive nat | WorkerExit nat | WorkerSendErr nat | WorkerSendMatch nat
  | CloseMatches | CloseErrsReturn
  | Collect | CollectDone | Drain | DrainDone

fun do_action :: "os_env \<Rightarrow> nat \<Rightarrow> caller \<Rightarrow> action \<Rightarrow> scan_state \<Rightarrow> scan_state option" where
  "do_action env workers c (WalkerSend i) s =
     (if i < length (walkers s) \<and> length (ch_paths s) < workers * 4 \<and> \<not> paths_closed s
      then (case walkers s ! i of
              Walking (p # ps) err \<Rightarrow>
                Some (s\<lparr>walkers := (walkers s)[i := Walking ps err], ch_paths := ch_paths s @ [p]\<rparr>)
            | _ \<Rightarrow> None)
      else None)"
| "do_action env workers c (WalkerDone i) s =
     (if i < length (walkers s)
      then (case walkers s ! i of
              Walking [] err \<Rightarrow>
                Some (s\<lparr>walkers := (walkers s)[i := WalkDone],
                        walkErr := (case err of None \<Rightarrow> walkErr s
                                    | Some e \<Rightarrow> errors_Join (walkErr s) (Some e))\<rparr>)
            | _ \<Rightarrow> None)
      else None)"
| "do_action env workers c ClosePaths s =
     (if list_all (\<lambda>w. w = WalkDone) (walkers s) \<and> \<not> paths_closed s
      then Some (s\<lparr>paths_closed := True\<rparr>) else None)"
| "do_action env workers c (WorkerReceive i) s =
     (if i < length (pool s) \<and> pool s ! i = Receiving
      then (case ch_paths s of
              p # ps \<Rightarrow>
                Some (s\<lparr>ch_paths := ps, pool := (pool s)[i := worker_after env p],
                        probed := probed s @ [p]\<rparr>)
            | [] \<Rightarrow> None)
      else None)"
| "do_action env workers c (WorkerExit i) s =
     (if i < length (pool s) \<and> pool s ! i = Receiving \<and> ch_paths s = [] \<and> paths_closed s
      then Some (s\<lparr>pool := (pool s)[i := Exited]\<rparr>) else None)"
| "do_action env workers c (WorkerSendErr i) s =
     (if i < length (pool s) \<and> length (ch_errs s) < workers \<and> \<not> errs_closed s
      then (case pool s ! i of
              SendingErr e \<Rightarrow>
                Some (s\<lparr>pool := (pool s)[i := Receiving], ch_errs := ch_errs s @ [e]\<rparr>)
            | _ \<Rightarrow> None)
      else None)"
| "do_action env workers c (WorkerSendMatch i) s =
     (if i < length (pool s) \<and> length (ch_matches s) < workers * 2 \<and> \<not> matches_closed s
      then (case pool s ! i of
              SendingMatch m \<Rightarrow>
                Some (s\<lparr>pool := (pool s)[i := Receiving], ch_matches := ch_matches s @ [m]\<rparr>)
            | _ \<Rightarrow> None)
      else None)"
| "do_action env workers c CloseMatches s =
     (if list_all (\<lambda>w. w = Exited) (pool s) \<and> \<not> matches_closed s
      then Some (s\<lparr>matches_closed := True\<rparr>) else None)"
| "do_action env workers c CloseErrsReturn s =
     (if matches_closed s \<and> \<not> errs_closed s
      then Some (s\<lparr>errs_closed := True, returned := Some (walkErr s)\<rparr>) else None)"
| "do_action env workers c Collect s =
     (if collector_done s then None
      else (case ch_matches s of
              m # ms \<Rightarrow> Some (s\<lparr>ch_matches := ms, out := out s @ [m]\<rparr>)
            | [] \<Rightarrow> None))"
| "do_action env workers c CollectDone s =
     (if ch_matches s = [] \<and> matches_closed s \<and> \<not> collector_done s
      then Some (s\<lparr>collector_done := True\<rparr>) else None)"
| "do_action env workers c Drain s =
     (if drainer_done s then None
      else (case ch_errs s of
              e # es \<Rightarrow>
                Some (s\<lparr>ch_errs := es, errs_received := errs_received s @ [e],
                        stderr := (case c of Main \<Rightarrow> stderr s @ [e] | FindSQLiteFiles \<Rightarrow> stderr s)\<rparr>)
            | [] \<Rightarrow> None))"
| "do_action env workers c DrainDone s =
     (if ch_errs s = [] \<and> errs_closed s \<and> \<not> drainer_done s
      then Some (s\<lparr>drainer_done := True\<rparr>) else None)"

fun run_schedule :: "os_env \<Rightarrow> nat \<Rightarrow> caller \<Rightarrow> action list \<Rightarrow> scan_state \<Rightarrow> scan_state option" where
  "run_schedule env workers c [] s = Some s"
| "run_schedule env workers c (a # as) s =
     (case do_action env workers c a s of
        None \<Rightarrow> None
      | Some s' \<Rightarrow> run_schedule env workers c as s')"


section \<open>Notions of the specification, and concrete inputs\<close>

subsection \<open>Root resolution\<close>

text \<open>The key of a root as the specification words it: the resolved path when the
  resolution of symbolic links succeeds and the resolved path exists, the raw path
  otherwise.\<close>

definition root_key :: "os_env \<Rightarrow> string \<Rightarrow> string" where
  "root_key env root =
     (case filepath_EvalSymlinks env root of
        Inr r \<Rightarrow> (case os_Stat env r of Inr u \<Rightarrow> r | Inl e \<Rightarrow> root)
      | Inl e \<Rightarrow> root)"

text \<open>A list without its later duplicates, in the order of first appearance.\<close>

fun first_occurrences :: "'a list \<Rightarrow> 'a list" where
  "first_occurrences [] = []"
| "first_occurrences (x # xs) = x # removeAll x (first_occurrences xs)"

text \<open>\<open>filepath.IsAbs\<close> on Unix: the path begins with a slash.\<close>

definition filepath_IsAbs :: "string \<Rightarrow> bool" where
  "filepath_IsAbs p = (case p of [] \<Rightarrow> False | c # cs \<Rightarrow> c = CHR ''/'')"

subsection \<open>Concrete inputs\<close>

text \<open>A ten-byte file that \<open>os.Open\<close> may not open.\<close>

definition locked_file :: os_File where
  "locked_file =
     \<lparr>content = ''not sqlite'', open_fault = Some EACCES, read_fault = None, stat_fault = None\<rparr>"

definition locked_env :: os_env where
  "locked_env =
     \<lparr>files = (\<lambda>p. if p = ''/srv/bad.bin'' then Some locked_file else None),
      os_Stat = (\<lambda>p. Inl ENOENT),
      os_Lstat = (\<lambda>p. Inl ENOENT),
      filepath_EvalSymlinks = (\<lambda>p. Inl ENOENT),
      filepath_Abs = (\<lambda>p. Inr p),
      filepath_Join = (\<lambda>p n. p @ ''/'' @ n)\<rparr>"

text \<open>The file \<open>good.db\<close> of \<open>TestCheckSQLiteMagic\<close>: the signature and a payload.\<close>

definition good_file :: os_File where
  "good_file =
     \<lparr>content = sqliteMagic @ ''lengthy payload'', open_fault = None, read_fault = None,
      stat_fault = None\<rparr>"

definition good_env :: os_env where
  "good_env =
     \<lparr>files = (\<lambda>p. if p = ''good.db'' then Some good_file else None),
      os_Stat = (\<lambda>p. Inl ENOENT),
      os_Lstat = (\<lambda>p. Inl ENOENT),
      filepath_EvalSymlinks = (\<lambda>p. Inl ENOENT),
      filepath_Abs = (\<lambda>p. Inr (''/tmp/'' @ p)),
      filepath_Join = (\<lambda>p n. p @ ''/'' @ n)\<rparr>"

text \<open>A directory \<open>/data/real\<close>, a symbolic link \<open>/data/link\<close> to it, and nothing at
  \<open>/data/gone\<close>.\<close>

definition link_env :: os_env where
  "link_env =
     \<lparr>files = (\<lambda>p. None),
      os_Stat = (\<lambda>p. if p = ''/data/real'' \<or> p = ''/data/link'' then Inr () else Inl ENOENT),
      os_Lstat = (\<lambda>p. Inl ENOENT),
      filepath_EvalSymlinks =
        (\<lambda>p. if p = ''/data/real'' \<or> p = ''/data/link'' then Inr ''/data/real'' else Inl ENOENT),
      filepath_Abs = (\<lambda>p. Inr p),
      filepath_Join = (\<lambda>p n. p @ ''/'' @ n)\<rparr>"

text \<open>A process in \<open>/data\<close>, with the directory \<open>/data/real\<close> and a symbolic link
  \<open>/data/link\<close> to it. \<open>filepath.EvalSymlinks\<close> leaves a relative path relative: the
  directory named \<open>real\<close> resolves to \<open>real\<close>, the link to \<open>/data/real\<close>.\<close>

definition cwd_env :: os_env where
  "cwd_env =
     \<lparr>files = (\<lambda>p. None),
      os_Stat = (\<lambda>p. if p = ''real'' \<or> p = ''/data/real'' \<or> p = ''/data/link'' then Inr ()
                     else Inl ENOENT),
      os_Lstat = (\<lambda>p. Inl ENOENT),
      filepath_EvalSymlinks =
        (\<lambda>p. if p = ''real'' then Inr ''real''
             else if p = ''/data/real'' \<or> p = ''/data/link'' then Inr ''/data/real''
             else Inl ENOENT),
      filepath_Abs = (\<lambda>p. if filepath_IsAbs p then Inr p else Inr (''/data/'' @ p)),
      filepath_Join = (\<lambda>p n. p @ ''/'' @ n)\<rparr>"

text \<open>A process whose working directory is gone: \<open>filepath.Abs\<close> of a relative path
  fails.\<close>

definition no_cwd_env :: os_env where
  "no_cwd_env =
     \<lparr>files = (\<lambda>p. None),
      os_Stat = (\<lambda>p. Inl ENOENT),
      os_Lstat = (\<lambda>p. Inl ENOENT),
      filepath_EvalSymlinks = (\<lambda>p. Inl ENOENT),
      filepath_Abs = (\<lambda>p. if filepath_IsAbs p then Inr p else Inl ENOENT),
      filepath_Join = (\<lambda>p n. p @ ''/'' @ n)\<rparr>"

text \<open>A process in \<open>/home/u\<close>.\<close>

definition home_env :: os_env where
  "home_env =
     \<lparr>files = (\<lambda>p. None),
      os_Stat = (\<lambda>p. Inl ENOENT),
      os_Lstat = (\<lambda>p. Inl ENOENT),
      filepath_EvalSymlinks = (\<lambda>p. Inl ENOENT),
      filepath_Abs = (\<lambda>p. if filepath_IsAbs p then Inr p else Inr (''/home/u/'' @ p)),
      filepath_Join = (\<lambda>p n. p @ ''/'' @ n)\<rparr>"


subsection \<open>Lines and JSON texts\<close>

text \<open>The lines of a text: the pieces between its newlines.\<close>

fun split_lines :: "string \<Rightarrow> string list" where
  "split_lines [] = [[]]"
| "split_lines (c # cs) =
     (if c = newline then [] # split_lines cs
      else (case split_lines cs of l # ls \<Rightarrow> (c # l) # ls | [] \<Rightarrow> [[c]]))"

text \<open>A line that holds a comma and nothing else but blanks.\<close>

definition isolated_comma :: "string \<Rightarrow> bool" where
  "isolated_comma l = (filter (\<lambda>c. c \<noteq> CHR '' '') l = '','')"

text \<open>The lines of one entry of the pretty JSON output, as the specification shows them:
  an opening brace, the path, the size when it is asked for, a closing brace.\<close>

definition entry_lines :: "os_env \<Rightarrow> matchResult \<Rightarrow> bool \<Rightarrow> string list" where
  "entry_lines env m showSize =
     (if showSize
      then [''    {'',
            ''      '' @ [dquote] @ ''path'' @ [dquote] @ '': '' @ marshalString (formatPath env (Path m)) @ '','',
            ''      '' @ [dquote] @ ''size'' @ [dquote] @ '': '' @ format_int (Size m)]
      else [''    {'',
            ''      '' @ [dquote] @ ''path'' @ [dquote] @ '': '' @ marshalString (formatPath env (Path m))])"

text \<open>
  JSON values (RFC 8259), with a string kept as the text between its quotes and a number
  as its text. The parser reads integers only: it accepts no text that is not JSON.
\<close>

datatype json =
    JString string
  | JNumber string
  | JArray "json list"
  | JObject "(string \<times> json) list"
  | JBool bool
  | JNull

definition is_ws :: "char \<Rightarrow> bool" where
  "is_ws c = (c = CHR '' '' \<or> c = CHR 0x0A \<or> c = CHR 0x0D \<or> c = CHR 0x09)"

definition skip_ws :: "string \<Rightarrow> string" where
  "skip_ws s = dropWhile is_ws s"

definition is_digit :: "char \<Rightarrow> bool" where
  "is_digit c = (48 \<le> (of_char c :: nat) \<and> (of_char c :: nat) \<le> 57)"

definition is_hex :: "char \<Rightarrow> bool" where
  "is_hex c = (is_digit c \<or> (97 \<le> (of_char c :: nat) \<and> (of_char c :: nat) \<le> 102)
                \<or> (65 \<le> (of_char c :: nat) \<and> (of_char c :: nat) \<le> 70))"

text \<open>The rest of a string after its opening quote: the text up to the closing quote,
  and what follows it. A control character must be escaped, and an escape must be one of
  JSON's.\<close>

fun json_scan_string :: "string \<Rightarrow> (string \<times> string) option" where
  "json_scan_string [] = None"
| "json_scan_string (c # cs) =
     (if c = dquote then Some ([], cs)
      else if c = backslash then
        (case cs of
           [] \<Rightarrow> None
         | e # cs' \<Rightarrow>
             if e = dquote \<or> e = backslash \<or> e = CHR ''/'' \<or> e = CHR ''b'' \<or> e = CHR ''f''
                \<or> e = CHR ''n'' \<or> e = CHR ''r'' \<or> e = CHR ''t''
             then map_option (\<lambda>(body, rest). (c # e # body, rest)) (json_scan_string cs')
             else if e = CHR ''u'' then
               (case cs' of
                  h1 # h2 # h3 # h4 # cs'' \<Rightarrow>
                    if is_hex h1 \<and> is_hex h2 \<and> is_hex h3 \<and> is_hex h4
                    then map_option (\<lambda>(body, rest). (c # e # h1 # h2 # h3 # h4 # body, rest))
                           (json_scan_string cs'')
                    else None
                | _ \<Rightarrow> None)
             else None)
      else if (of_char c :: nat) < 0x20 then None
      else map_option (\<lambda>(body, rest). (c # body, rest)) (json_scan_string cs))"

text \<open>An integer: an optional minus sign and digits, with no leading zero.\<close>

definition json_scan_number :: "string \<Rightarrow> (string \<times> string) option" where
  "json_scan_number s =
     (let sign = (case s of c # cs \<Rightarrow> if c = CHR ''-'' then [c] else [] | [] \<Rightarrow> []);
          t = drop (length sign) s;
          ds = takeWhile is_digit t
      in if ds = [] \<or> (1 < length ds \<and> hd ds = CHR ''0'') then None
         else Some (sign @ ds, dropWhile is_digit t))"

text \<open>A value, the elements of an array after its bracket, the members of an object
  after its brace; each with what follows. The first argument bounds the depth of the
  recursion.\<close>

fun json_value :: "nat \<Rightarrow> string \<Rightarrow> (json \<times> string) option"
  and json_elements :: "nat \<Rightarrow> string \<Rightarrow> (json list \<times> string) option"
  and json_members :: "nat \<Rightarrow> string \<Rightarrow> ((string \<times> json) list \<times> string) option"
where
  "json_value 0 s = None"
| "json_value (Suc n) s =
     (case skip_ws s of
        [] \<Rightarrow> None
      | c # cs \<Rightarrow>
          if c = dquote then map_option (\<lambda>(body, rest). (JString body, rest)) (json_scan_string cs)
          else if c = CHR ''['' then
            (case skip_ws cs of
               [] \<Rightarrow> None
             | c' # cs' \<Rightarrow>
                 if c' = CHR '']'' then Some (JArray [], cs')
                 else map_option (\<lambda>(vs, rest). (JArray vs, rest)) (json_elements n cs))
          else if c = CHR ''{'' then
            (case skip_ws cs of
               [] \<Rightarrow> None
             | c' # cs' \<Rightarrow>
                 if c' = CHR ''}'' then Some (JObject [], cs')
                 else map_option (\<lambda>(kvs, rest). (JObject kvs, rest)) (json_members n cs))
          else if c = CHR ''-'' \<or> is_digit c then
            map_option (\<lambda>(num, rest). (JNumber num, rest)) (json_scan_number (c # cs))
          else if take 4 (c # cs) = ''true'' then Some (JBool True, drop 4 (c # cs))
          else if take 5 (c # cs) = ''false'' then Some (JBool False, drop 5 (c # cs))
          else if take 4 (c # cs) = ''null'' then Some (JNull, drop 4 (c # cs))
          else None)"
| "json_elements 0 s = None"
| "json_elements (Suc n) s =
     (case json_value n s of
        None \<Rightarrow> None
      | Some (v, r) \<Rightarrow>
          (case skip_ws r of
             [] \<Rightarrow> None
           | c # cs \<Rightarrow>
               if c = CHR '','' then map_option (\<lambda>(vs, rest). (v # vs, rest)) (json_elements n cs)
               else if c = CHR '']'' then Some ([v], cs)
               else None))"
| "json_members 0 s = None"
| "json_members (Suc n) s =
     (case skip_ws s of
        [] \<Rightarrow> None
      | c # cs \<Rightarrow>
          if c \<noteq> dquote then None
          else
            (case json_scan_string cs of
               None \<Rightarrow> None
             | Some (k, r) \<Rightarrow>
                 (case skip_ws r of
                    [] \<Rightarrow> None
                  | c' # cs' \<Rightarrow>
                      if c' \<noteq> CHR '':'' then None
                      else
                        (case json_value n cs' of
                           None \<Rightarrow> None
                         | Some (v, r') \<Rightarrow>
                             (case skip_ws r' of
                                [] \<Rightarrow> None
                              | c'' # cs'' \<Rightarrow>
                                  if c'' = CHR '','' then
                                    map_option (\<lambda>(kvs, rest). ((k, v) # kvs, rest)) (json_members n cs'')
                                  else if c'' = CHR ''}'' then Some ([(k, v)], cs'')
                                  else None)))))"

text \<open>A JSON text: one value, with blanks around it and nothing else.\<close>

definition parse_json :: "string \<Rightarrow> json option" where
  "parse_json s =
     (case json_value (length s) s of
        None \<Rightarrow> None
      | Some (v, rest) \<Rightarrow> if skip_ws rest = [] then Some v else None)"

text \<open>The fields of a JSON object.\<close>

fun json_fields :: "json \<Rightarrow> string list" where
  "json_fields (JObject kvs) = map fst kvs"
| "json_fields v = []"


subsection \<open>Notions for the JSON output\<close>

text \<open>The JSON object the specification gives for a record: a \<open>path\<close> field, and a
  \<open>size\<close> field when the size is asked for.\<close>

definition record_object :: "os_env \<Rightarrow> matchResult \<Rightarrow> bool \<Rightarrow> json" where
  "record_object env m showSize =
     JObject ((''path'', JString (json_appendString (formatPath env (Path m))))
              # (if showSize then [(''size'', JNumber (format_int (Size m)))] else []))"

text \<open>The line of an entry that holds the path and ends in the comma before the size.\<close>

definition path_line :: "os_env \<Rightarrow> matchResult \<Rightarrow> string" where
  "path_line env m =
     ''      '' @ [dquote] @ ''path'' @ [dquote] @ '': '' @ marshalString (formatPath env (Path m)) @ '',''"

text \<open>The lines of the pretty output as the specification shows them: the lines of each
  entry, closed by a brace with a comma except for the last one, between the two header
  lines and the two footer lines (and the empty piece after the last newline).\<close>

fun entries_lines :: "os_env \<Rightarrow> bool \<Rightarrow> matchResult \<Rightarrow> matchResult list \<Rightarrow> string list" where
  "entries_lines env showSize cur [] = entry_lines env cur showSize @ [''    }'']"
| "entries_lines env showSize cur (next # rest) =
     entry_lines env cur showSize @ [''    },''] @ entries_lines env showSize next rest"

definition pretty_lines :: "os_env \<Rightarrow> matchResult list \<Rightarrow> bool \<Rightarrow> string list" where
  "pretty_lines env ms showSize =
     [''{'', ''  '' @ [dquote] @ ''entries'' @ [dquote] @ '': ['']
     @ (case ms of [] \<Rightarrow> [] | first # rest \<Rightarrow> entries_lines env showSize first rest)
     @ [''  ]'', ''}'', []]"

text \<open>A proof notion: a text that the string scanner reads through unchanged, and that
  holds no control character.\<close>

definition passes :: "string \<Rightarrow> bool" where
  "passes p = ((\<forall>c \<in> set p. 0x20 \<le> (of_char c :: nat)) \<and>
     (\<forall>t. json_scan_string (p @ t) = map_option (\<lambda>(body, rest). (p @ body, rest)) (json_scan_string t)))"


subsection \<open>Notions for the scan pipeline\<close>

text \<open>What a walker still has to send, and the error it still has to record.\<close>

fun walker_paths :: "walker \<Rightarrow> string list" where
  "walker_paths (Walking ps err) = ps"
| "walker_paths WalkDone = []"

text \<open>The errors joined in an error of \<open>errors.Join\<close>, and in nil.\<close>

fun join_leaves :: "go_error \<Rightarrow> go_error list" where
  "join_leaves (joinError es) = concat (map join_leaves es)"
| "join_leaves e = [e]"

fun opt_leaves :: "go_error option \<Rightarrow> go_error list" where
  "opt_leaves None = []"
| "opt_leaves (Some e) = join_leaves e"

fun walker_errs :: "walker \<Rightarrow> go_error list" where
  "walker_errs (Walking ps err) = opt_leaves err"
| "walker_errs WalkDone = []"

text \<open>What a worker is about to send.\<close>

fun worker_match :: "worker \<Rightarrow> matchResult list" where
  "worker_match (SendingMatch m) = [m]"
| "worker_match w = []"

fun worker_err :: "worker \<Rightarrow> go_error list" where
  "worker_err (SendingErr e) = [e]"
| "worker_err w = []"

text \<open>The paths the walks of the roots send, root after root.\<close>

definition walked :: "os_env \<Rightarrow> string list \<Rightarrow> string list" where
  "walked env roots = concat (map (\<lambda>r. fst (filepath_WalkDir env r walkFn)) roots)"

text \<open>The errors the walks of the roots return.\<close>

definition walk_errors :: "os_env \<Rightarrow> string list \<Rightarrow> go_error list" where
  "walk_errors env roots = concat (map (\<lambda>r. opt_leaves (snd (filepath_WalkDir env r walkFn))) roots)"

text \<open>The record, and the warning, that the specification expects for a probed path.\<close>

definition expected_match :: "os_env \<Rightarrow> string \<Rightarrow> matchResult list" where
  "expected_match env p =
     (case checkSQLiteMagic env p of
        (res, ok, None) \<Rightarrow> if ok then [res] else []
      | (res, ok, Some err) \<Rightarrow> [])"

definition expected_warning :: "os_env \<Rightarrow> string \<Rightarrow> go_error list" where
  "expected_warning env p =
     (case checkSQLiteMagic env p of
        (res, ok, None) \<Rightarrow> []
      | (res, ok, Some err) \<Rightarrow> if is_ErrPermission err then [] else [Errorf p err])"

text \<open>A bound on the number of steps a state has left: every step lowers it.\<close>

fun walker_weight :: "walker \<Rightarrow> nat" where
  "walker_weight (Walking ps err) = 5 * length ps + 1"
| "walker_weight WalkDone = 0"

fun worker_weight :: "worker \<Rightarrow> nat" where
  "worker_weight Receiving = 1"
| "worker_weight (SendingErr e) = 3"
| "worker_weight (SendingMatch m) = 3"
| "worker_weight Exited = 0"

definition scan_measure :: "scan_state \<Rightarrow> nat" where
  "scan_measure s =
     sum_list (map walker_weight (walkers s)) + 4 * length (ch_paths s)
     + sum_list (map worker_weight (pool s))
     + length (ch_matches s) + length (ch_errs s)
     + (if paths_closed s then 0 else 1) + (if matches_closed s then 0 else 1)
     + (if errs_closed s then 0 else 1) + (if collector_done s then 0 else 1)
     + (if drainer_done s then 0 else 1)"

text \<open>The invariant of a run: the order in which the channels are closed; what
  \<open>scanPaths\<close> returns; what is written to standard error; and that nothing is lost or
  made up on the way from the walks to the results: every path a walk sends is with a
  walker, on \<open>paths\<close>, or probed, and every record and warning a probe gives is with a
  worker, on its channel, or received.\<close>

definition scan_inv :: "os_env \<Rightarrow> nat \<Rightarrow> caller \<Rightarrow> string list \<Rightarrow> scan_state \<Rightarrow> bool" where
  "scan_inv env workers c roots s =
     (0 < workers \<and> length (walkers s) = length roots \<and> length (pool s) = workers \<and>
      (paths_closed s \<longrightarrow> (\<forall>w \<in> set (walkers s). w = WalkDone)) \<and>
      (Exited \<in> set (pool s) \<longrightarrow> paths_closed s \<and> ch_paths s = []) \<and>
      (matches_closed s \<longrightarrow> (\<forall>w \<in> set (pool s). w = Exited)) \<and>
      (errs_closed s \<longrightarrow> matches_closed s) \<and>
      (collector_done s \<longrightarrow> matches_closed s \<and> ch_matches s = []) \<and>
      (drainer_done s \<longrightarrow> errs_closed s \<and> ch_errs s = []) \<and>
      returned s = (if errs_closed s then Some (walkErr s) else None) \<and>
      stderr s = (if c = Main then errs_received s else []) \<and>
      mset (concat (map walker_paths (walkers s))) + mset (ch_paths s) + mset (probed s)
        = mset (walked env roots) \<and>
      mset (out s) + mset (ch_matches s) + mset (concat (map worker_match (pool s)))
        = mset (concat (map (expected_match env) (probed s))) \<and>
      mset (errs_received s) + mset (ch_errs s) + mset (concat (map worker_err (pool s)))
        = mset (concat (map (expected_warning env) (probed s))) \<and>
      mset (opt_leaves (walkErr s)) + mset (concat (map walker_errs (walkers s)))
        = mset (walk_errors env roots))"

text \<open>The regular files of a tree, under their joined paths, in the order of the
  tree; and the errors of \<open>os.ReadDir\<close> in the tree that are not permission-denied.\<close>

fun regular_paths :: "os_env \<Rightarrow> string \<Rightarrow> fnode \<Rightarrow> string list"
  and regular_paths_entries :: "os_env \<Rightarrow> string \<Rightarrow> (string \<times> fnode) list \<Rightarrow> string list"
where
  "regular_paths env path Regular = [path]"
| "regular_paths env path Irregular = []"
| "regular_paths env path (Dir dirs rerr) = regular_paths_entries env path dirs"
| "regular_paths_entries env path [] = []"
| "regular_paths_entries env path ((name, d) # rest) =
     regular_paths env (filepath_Join env path name) d @ regular_paths_entries env path rest"

text \<open>An error of the operating system that is not permission-denied.\<close>

definition is_hard :: "errno \<Rightarrow> bool" where
  "is_hard e = (\<not> is_ErrPermission (PathError e))"

fun hard_errors :: "fnode \<Rightarrow> errno list"
  and hard_errors_entries :: "(string \<times> fnode) list \<Rightarrow> errno list"
where
  "hard_errors Regular = []"
| "hard_errors Irregular = []"
| "hard_errors (Dir dirs rerr) =
     (case rerr of None \<Rightarrow> [] | Some e \<Rightarrow> if is_hard e then [e] else []) @ hard_errors_entries dirs"
| "hard_errors_entries [] = []"
| "hard_errors_entries ((name, d) # rest) = hard_errors d @ hard_errors_entries rest"

text \<open>What the walk of a tree is to give: the error of the first hard error, if any, and
  the regular files before it.\<close>

definition walk_agrees :: "string list \<times> go_error option \<Rightarrow> string list \<Rightarrow> errno list \<Rightarrow> bool" where
  "walk_agrees res fs errs =
     (case errs of
        [] \<Rightarrow> res = (fs, None)
      | e # es \<Rightarrow> snd res = Some (PathError e) \<and> (\<exists>rest. fs = fst res @ rest))"

text \<open>The regular files of the tree of a root, and its hard errors (the failure of
  \<open>os.Lstat\<close> on the root among them).\<close>

definition root_regular_paths :: "os_env \<Rightarrow> string \<Rightarrow> string list" where
  "root_regular_paths env root =
     (case os_Lstat env root of Inl e \<Rightarrow> [] | Inr d \<Rightarrow> regular_paths env root d)"

definition root_hard_errors :: "os_env \<Rightarrow> string \<Rightarrow> errno list" where
  "root_hard_errors env root =
     (case os_Lstat env root of
        Inl e \<Rightarrow> if is_hard e then [e] else []
      | Inr d \<Rightarrow> hard_errors d)"




subsection \<open>Concrete scans\<close>

text \<open>A file whose first read fails, and a file that holds the signature and nothing
  else.\<close>

definition broken_file :: os_File where
  "broken_file = \<lparr>content = ''garbage'', open_fault = None, read_fault = Some (0, EIO), stat_fault = None\<rparr>"

definition bare_file :: os_File where
  "bare_file = \<lparr>content = sqliteMagic, open_fault = None, read_fault = None, stat_fault = None\<rparr>"

text \<open>The tree under \<open>/r\<close>: a directory that may not be read, four regular files and
  a symbolic link. The tree under \<open>/f\<close>: a directory \<open>c\<close> whose reading fails with an
  input/output error, between two regular files. Nothing is at \<open>/missing\<close>.\<close>

definition demo_tree :: fnode where
  "demo_tree =
     Dir [(''a'', Dir [] (Some EACCES)), (''b.db'', Regular), (''c.bin'', Regular),
          (''d.db'', Regular), (''e.db'', Regular), (''lnk'', Irregular)] None"

definition faulty_tree :: fnode where
  "faulty_tree =
     Dir [(''a'', Dir [] (Some EACCES)), (''b.db'', Regular),
          (''c'', Dir [(''lost.db'', Regular)] (Some EIO)), (''d.db'', Regular)] None"

definition demo_env :: os_env where
  "demo_env =
     \<lparr>files = (\<lambda>p. if p = ''/r/b.db'' then Some good_file
                  else if p = ''/r/c.bin'' then Some broken_file
                  else if p = ''/r/d.db'' then Some locked_file
                  else if p = ''/r/e.db'' then Some bare_file
                  else None),
      os_Stat = (\<lambda>p. if p = ''/r'' then Inr () else Inl ENOENT),
      os_Lstat = (\<lambda>p. if p = ''/r'' then Inr demo_tree
                     else if p = ''/f'' then Inr faulty_tree else Inl ENOENT),
      filepath_EvalSymlinks = (\<lambda>p. if p = ''/r'' then Inr p else Inl ENOENT),
      filepath_Abs = (\<lambda>p. Inr p),
      filepath_Join = (\<lambda>p n. p @ ''/'' @ n)\<rparr>"

definition demo_roots :: "string list" where
  "demo_roots = [''/r'', ''/missing'']"

text \<open>A run with one worker and a run with two workers, and the states they end in; the
  second run under \<open>main\<close> ends in the same state but for standard error.\<close>

definition demo_schedule_1 :: "action list" where
  "demo_schedule_1 =
     [WalkerSend 0, WalkerSend 0, WalkerSend 0, WalkerSend 0, WalkerDone 0, WalkerDone 1, ClosePaths,
      WorkerReceive 0, WorkerSendMatch 0, Collect, WorkerReceive 0, WorkerSendErr 0, Drain,
      WorkerReceive 0, WorkerReceive 0, WorkerSendMatch 0, WorkerExit 0,
      CloseMatches, CloseErrsReturn, Collect, CollectDone, DrainDone]"

definition demo_schedule_2 :: "action list" where
  "demo_schedule_2 =
     [WalkerDone 1, WalkerSend 0, WalkerSend 0, WalkerSend 0, WalkerSend 0,
      WorkerReceive 0, WorkerReceive 1, WorkerSendErr 1, WorkerReceive 1, WorkerReceive 1,
      WorkerSendMatch 1, WorkerSendMatch 0, WalkerDone 0, ClosePaths, WorkerExit 0, WorkerExit 1,
      Collect, Collect, Drain, CloseMatches, CloseErrsReturn, CollectDone, DrainDone]"

definition demo_final_1 :: scan_state where
  "demo_final_1 =
     \<lparr>walkers = [WalkDone, WalkDone],
      walkErr = Some (joinError [PathError ENOENT]), ch_paths = [],
      paths_closed = True, pool = [Exited], ch_matches = [],
      matches_closed = True, ch_errs = [], errs_closed = True,
      returned = Some (Some (joinError [PathError ENOENT])),
      out = [\<lparr>Path = ''/r/b.db'', Size = 31\<rparr>, \<lparr>Path = ''/r/e.db'', Size = 16\<rparr>],
      collector_done = True, stderr = [], drainer_done = True,
      probed = [''/r/b.db'', ''/r/c.bin'', ''/r/d.db'', ''/r/e.db''],
      errs_received = [Errorf ''/r/c.bin'' (PathError EIO)]\<rparr>"

definition demo_final_2 :: scan_state where
  "demo_final_2 =
     \<lparr>walkers = [WalkDone, WalkDone],
      walkErr = Some (joinError [PathError ENOENT]), ch_paths = [],
      paths_closed = True, pool = [Exited, Exited], ch_matches = [],
      matches_closed = True, ch_errs = [], errs_closed = True,
      returned = Some (Some (joinError [PathError ENOENT])),
      out = [\<lparr>Path = ''/r/e.db'', Size = 16\<rparr>, \<lparr>Path = ''/r/b.db'', Size = 31\<rparr>],
      collector_done = True, stderr = [], drainer_done = True,
      probed = [''/r/b.db'', ''/r/c.bin'', ''/r/d.db'', ''/r/e.db''],
      errs_received = [Errorf ''/r/c.bin'' (PathError EIO)]\<rparr>"

definition demo_final_main :: scan_state where
  "demo_final_main = demo_final_2\<lparr>stderr := [Errorf ''/r/c.bin'' (PathError EIO)]\<rparr>"

text \<open>A run on the root \<open>/r\<close> alone.\<close>

definition solo_schedule :: "action list" where
  "solo_schedule =
     [WalkerSend 0, WalkerSend 0, WalkerSend 0, WalkerSend 0,
      WorkerReceive 0, WorkerReceive 1, WorkerSendErr 1, WorkerReceive 1, WorkerReceive 1,
      WorkerSendMatch 1, WorkerSendMatch 0, WalkerDone 0, ClosePaths, WorkerExit 0, WorkerExit 1,
      Collect, Collect, Drain, CloseMatches, CloseErrsReturn, CollectDone, DrainDone]"

definition solo_final :: scan_state where
  "solo_final =
     \<lparr>walkers = [WalkDone],
      walkErr = None, ch_paths = [],
      paths_closed = True, pool = [Exited, Exited], ch_matches = [],
      matches_closed = True, ch_errs = [], errs_closed = True,
      returned = Some None,
      out = [\<lparr>Path = ''/r/e.db'', Size = 16\<rparr>, \<lparr>Path = ''/r/b.db'', Size = 31\<rparr>],
      collector_done = True, stderr = [], drainer_done = True,
      probed = [''/r/b.db'', ''/r/c.bin'', ''/r/d.db'', ''/r/e.db''],
      errs_received = [Errorf ''/r/c.bin'' (PathError EIO)]\<rparr>"

text \<open>Two roots, one inside the other: \<open>/a\<close> and \<open>/a/b\<close>, with one database
  \<open>/a/b/x.db\<close>; and a run on them with one worker.\<close>

definition nested_env :: os_env where
  "nested_env =
     \<lparr>files = (\<lambda>p. if p = ''/a/b/x.db'' then Some good_file else None),
      os_Stat = (\<lambda>p. if p = ''/a'' \<or> p = ''/a/b'' then Inr () else Inl ENOENT),
      os_Lstat = (\<lambda>p. if p = ''/a'' then Inr (Dir [(''b'', Dir [(''x.db'', Regular)] None)] None)
                     else if p = ''/a/b'' then Inr (Dir [(''x.db'', Regular)] None)
                     else Inl ENOENT),
      filepath_EvalSymlinks = (\<lambda>p. if p = ''/a'' \<or> p = ''/a/b'' then Inr p else Inl ENOENT),
      filepath_Abs = (\<lambda>p. Inr p),
      filepath_Join = (\<lambda>p n. p @ ''/'' @ n)\<rparr>"

definition nested_roots :: "string list" where
  "nested_roots = [''/a'', ''/a/b'']"

definition nested_schedule :: "action list" where
  "nested_schedule =
     [WalkerSend 0, WalkerSend 1, WalkerDone 0, WalkerDone 1, ClosePaths,
      WorkerReceive 0, WorkerSendMatch 0, WorkerReceive 0, WorkerSendMatch 0, WorkerExit 0,
      CloseMatches, CloseErrsReturn, Collect, Collect, CollectDone, DrainDone]"

definition nested_final :: scan_state where
  "nested_final =
     \<lparr>walkers = [WalkDone, WalkDone],
      walkErr = None, ch_paths = [],
      paths_closed = True, pool = [Exited], ch_matches = [],
      matches_closed = True, ch_errs = [], errs_closed = True,
      returned = Some None,
      out = [\<lparr>Path = ''/a/b/x.db'', Size = 31\<rparr>, \<lparr>Path = ''/a/b/x.db'', Size = 31\<rparr>],
      collector_done = True, stderr = [], drainer_done = True,
      probed = [''/a/b/x.db'', ''/a/b/x.db''],
      errs_received = []\<rparr>"


section \<open>Properties\<close>

subsection \<open>The header prober\<close>

lemma length_sqliteMagic: "length sqliteMagic = 16"
  by (simp add: sqliteMagic_def)

text \<open>
  C1, as stated, fails: the prober is to return no-match and a nil error for every file
  shorter than 16 bytes, never an error. The file \<open>/srv/bad.bin\<close> holds ten bytes and
  \<open>os.Open\<close> is denied on it: the prober returns that error.
\<close>

theorem checkSQLiteMagic_locked_counterexample:
  "files locked_env ''/srv/bad.bin'' = Some locked_file \<and> length (content locked_file) < 16 \<and>
   checkSQLiteMagic locked_env ''/srv/bad.bin'' = (matchResult_zero, False, Some (PathError EACCES))"
  by (simp add: locked_env_def locked_file_def checkSQLiteMagic_def os_Open_def)

text \<open>
  C1, amended: for every path whose file is opened, read and stat'ed without an error of
  the operating system, the prober returns a match if and only if the first 16 bytes of
  the file are the signature; the match records the path and the exact length of the file
  in bytes; every other such file, and so every such file shorter than 16 bytes, gets
  no-match and a nil error.
\<close>

theorem checkSQLiteMagic_readable:
  assumes "files env path = Some f"
    and "open_fault f = None" and "read_fault f = None" and "stat_fault f = None"
  shows "(fst (snd (checkSQLiteMagic env path)) \<longleftrightarrow> take 16 (content f) = sqliteMagic) \<and>
         (take 16 (content f) = sqliteMagic \<longrightarrow>
            checkSQLiteMagic env path = (\<lparr>Path = path, Size = int (length (content f))\<rparr>, True, None)) \<and>
         (take 16 (content f) \<noteq> sqliteMagic \<longrightarrow>
            checkSQLiteMagic env path = (matchResult_zero, False, None)) \<and>
         (length (content f) < 16 \<longrightarrow>
            checkSQLiteMagic env path = (matchResult_zero, False, None))"
proof -
  have opened: "os_Open env path = Inr f"
    using assms by (simp add: os_Open_def)
  have short: "length (content f) < 16 \<Longrightarrow> take 16 (content f) \<noteq> sqliteMagic"
  proof
    assume "length (content f) < 16" and "take 16 (content f) = sqliteMagic"
    then have "length (take 16 (content f)) = 16" by (simp add: length_sqliteMagic)
    with \<open>length (content f) < 16\<close> show False by simp
  qed
  have full: "take 16 (content f) = sqliteMagic \<Longrightarrow> 16 \<le> length (content f)"
    using short by fastforce
  have yes: "take 16 (content f) = sqliteMagic \<Longrightarrow>
      checkSQLiteMagic env path = (\<lparr>Path = path, Size = int (length (content f))\<rparr>, True, None)"
    using assms full
    by (simp add: checkSQLiteMagic_def opened io_ReadFull_def file_Stat_def length_sqliteMagic)
  have no: "take 16 (content f) \<noteq> sqliteMagic \<Longrightarrow>
      checkSQLiteMagic env path = (matchResult_zero, False, None)"
    using assms
    by (simp add: checkSQLiteMagic_def opened io_ReadFull_def file_Stat_def length_sqliteMagic)
  show ?thesis
  proof (cases "take 16 (content f) = sqliteMagic")
    case True
    with yes full show ?thesis by simp
  next
    case False
    with no show ?thesis by simp
  qed
qed

theorem checkSQLiteMagic_readable_witness:
  "checkSQLiteMagic good_env ''good.db'' = (\<lparr>Path = ''good.db'', Size = 31\<rparr>, True, None) \<and>
   fst (snd (checkSQLiteMagic good_env ''good.db''))"
  using checkSQLiteMagic_readable [of good_env "''good.db''" good_file]
  by (simp add: good_env_def good_file_def sqliteMagic_def)

text \<open>The three errors the prober returns: that of \<open>os.Open\<close>, that of a read which is
  not an end of file, and that of \<open>f.Stat\<close> after the header has matched.\<close>

lemma checkSQLiteMagic_errors:
  "os_Open env path = Inl e \<Longrightarrow>
     checkSQLiteMagic env path = (matchResult_zero, False, Some (PathError e))"
  "os_Open env path = Inr f \<Longrightarrow> io_ReadFull f 16 = Inl err \<Longrightarrow> \<not> is_EOF err \<Longrightarrow>
     checkSQLiteMagic env path = (matchResult_zero, False, Some err)"
  "os_Open env path = Inr f \<Longrightarrow> io_ReadFull f 16 = Inr sqliteMagic \<Longrightarrow> file_Stat f = Inl err \<Longrightarrow>
     checkSQLiteMagic env path = (matchResult_zero, False, Some err)"
  by (simp_all add: checkSQLiteMagic_def length_sqliteMagic)

subsection \<open>The root resolver\<close>

lemma set_first_occurrences: "set (first_occurrences xs) = set xs"
  by (induction xs) auto

lemma distinct_first_occurrences: "distinct (first_occurrences xs)"
  by (induction xs) (auto simp: distinct_removeAll)

lemma resolveRoots_loop_step:
  "resolveRoots_loop env (root # roots) resolved seen =
     (if root_key env root \<in> seen then resolveRoots_loop env roots resolved seen
      else resolveRoots_loop env roots (resolved @ [root_key env root])
             (insert (root_key env root) seen))"
  by (simp add: root_key_def Let_def split: sum.splits)

lemma filter_unseen_neq:
  "filter (\<lambda>x. x \<noteq> k \<and> x \<notin> seen) xs = filter (\<lambda>x. x \<notin> seen) (removeAll k xs)"
  by (induction xs) auto

lemma filter_unseen_removeAll:
  "k \<in> seen \<Longrightarrow> filter (\<lambda>x. x \<notin> seen) (removeAll k xs) = filter (\<lambda>x. x \<notin> seen) xs"
  by (induction xs) auto

lemma resolveRoots_loop_eq:
  "resolveRoots_loop env roots resolved seen =
     resolved @ filter (\<lambda>k. k \<notin> seen) (first_occurrences (map (root_key env) roots))"
proof (induction roots arbitrary: resolved seen)
  case Nil
  show ?case by simp
next
  case (Cons root roots)
  show ?case
  proof (cases "root_key env root \<in> seen")
    case True
    then show ?thesis
      unfolding resolveRoots_loop_step
      by (simp add: Cons.IH filter_unseen_removeAll del: resolveRoots_loop.simps)
  next
    case False
    then show ?thesis
      unfolding resolveRoots_loop_step
      by (simp add: Cons.IH filter_unseen_neq del: resolveRoots_loop.simps)
  qed
qed

lemma resolveRoots_eq: "resolveRoots env roots = first_occurrences (map (root_key env) roots)"
  by (simp add: resolveRoots_def resolveRoots_loop_eq)

text \<open>
  C5, as stated, fails: the same root supplied once raw and once through a symbolic link
  that resolves to it is to give a single entry. In the directory \<open>/data\<close> the raw root
  \<open>real\<close> and the link \<open>/data/link\<close> name the same directory \<open>/data/real\<close>; the
  resolution leaves the relative path relative, the two keys differ as strings, and
  \<open>resolveRoots\<close> keeps both.
\<close>

theorem resolveRoots_relative_root_counterexample:
  "filepath_Abs cwd_env ''real'' = Inr ''/data/real'' \<and>
   filepath_EvalSymlinks cwd_env ''/data/link'' = Inr ''/data/real'' \<and>
   resolveRoots cwd_env [''real'', ''/data/link''] = [''real'', ''/data/real'']"
  by (simp add: resolveRoots_def cwd_env_def filepath_IsAbs_def Let_def)

lemma root_key_resolved:
  assumes "filepath_EvalSymlinks env root = Inr target" and "os_Stat env target = Inr u"
  shows "root_key env root = target"
  using assms by (simp add: root_key_def)

text \<open>
  C5, amended: \<open>resolveRoots\<close> returns the keys of its inputs (the resolved path when
  the resolution succeeds and the resolved path exists, the raw path otherwise) in the
  order of first appearance and without the later duplicates: the result has no duplicate
  and holds the key of every input. Two inputs give one entry exactly when their keys are
  the same string; so a root supplied by its resolved path and through a symbolic link
  that resolves to that path gives a single entry, in either order. The function returns
  a list and no error, for a root that does not exist too.
\<close>

theorem resolveRoots_keys_first_occurrences:
  "resolveRoots env roots = first_occurrences (map (root_key env) roots) \<and>
   distinct (resolveRoots env roots) \<and>
   set (resolveRoots env roots) = root_key env ` set roots \<and>
   resolveRoots env [a, b]
     = (if root_key env a = root_key env b then [root_key env a]
        else [root_key env a, root_key env b]) \<and>
   (filepath_EvalSymlinks env link = Inr target \<and>
    filepath_EvalSymlinks env target = Inr target \<and> os_Stat env target = Inr u \<longrightarrow>
      resolveRoots env [target, link] = [target] \<and> resolveRoots env [link, target] = [target])"
proof -
  have pair: "resolveRoots env [a, b]
     = (if root_key env a = root_key env b then [root_key env a]
        else [root_key env a, root_key env b])"
    by (simp add: resolveRoots_eq)
  have link: "resolveRoots env [target, link] = [target] \<and> resolveRoots env [link, target] = [target]"
    if "filepath_EvalSymlinks env link = Inr target"
      and "filepath_EvalSymlinks env target = Inr target" and "os_Stat env target = Inr u"
  proof -
    have "root_key env link = target" using that(1,3) by (rule root_key_resolved)
    moreover have "root_key env target = target" using that(2,3) by (rule root_key_resolved)
    ultimately show ?thesis by (simp add: resolveRoots_eq)
  qed
  show ?thesis
    using pair link
    by (simp add: resolveRoots_eq distinct_first_occurrences set_first_occurrences)
qed

theorem resolveRoots_keys_first_occurrences_witness:
  "resolveRoots link_env [''/data/real'', ''/data/gone'', ''/data/link''] = [''/data/real'', ''/data/gone''] \<and>
   resolveRoots link_env [''/data/real'', ''/data/link''] = [''/data/real''] \<and>
   resolveRoots link_env [''/data/link'', ''/data/real''] = [''/data/real'']"
proof -
  note t = resolveRoots_keys_first_occurrences [of link_env
      "[''/data/real'', ''/data/gone'', ''/data/link'']" "''/data/real''" "''/data/link''"
      "''/data/link''" "''/data/real''" "()"]
  have 1: "resolveRoots link_env [''/data/real'', ''/data/gone'', ''/data/link'']
      = [''/data/real'', ''/data/gone'']"
    using t [THEN conjunct1] by (simp add: link_env_def root_key_def)
  have h: "filepath_EvalSymlinks link_env ''/data/link'' = Inr ''/data/real'' \<and>
      filepath_EvalSymlinks link_env ''/data/real'' = Inr ''/data/real'' \<and>
      os_Stat link_env ''/data/real'' = Inr ()"
    by (simp add: link_env_def)
  have 2: "resolveRoots link_env [''/data/real'', ''/data/link''] = [''/data/real''] \<and>
      resolveRoots link_env [''/data/link'', ''/data/real''] = [''/data/real'']"
    using t [THEN conjunct2, THEN conjunct2, THEN conjunct2, THEN conjunct2] h by blast
  show ?thesis using 1 2 by blast
qed

subsection \<open>Paths in the output\<close>

text \<open>
  C9, as stated, fails: the path in the output is to be the absolute form of the recorded
  path always. When \<open>filepath.Abs\<close> fails (the working directory is gone), \<open>formatPath\<close>
  falls back to the recorded path, and the relative path \<open>a.db\<close> is printed as it is.
\<close>

theorem formatPath_no_cwd_counterexample:
  "filepath_Abs no_cwd_env ''a.db'' = Inl ENOENT \<and>
   formatPlainMatch no_cwd_env \<lparr>Path = ''a.db'', Size = 1\<rparr> False = ''a.db'' \<and>
   \<not> filepath_IsAbs (formatPlainMatch no_cwd_env \<lparr>Path = ''a.db'', Size = 1\<rparr> False)"
  by (simp add: no_cwd_env_def formatPlainMatch_def formatPath_def filepath_IsAbs_def)

text \<open>
  C9, amended: whenever \<open>filepath.Abs\<close> succeeds on the recorded path, the path in the
  output of every mode (plain, JSON line, pretty JSON entry; with or without the size) is
  that absolute form, whether the recorded path was absolute or not.
\<close>

theorem formatters_render_Abs:
  assumes "filepath_Abs env (Path m) = Inr ap"
  shows "formatPath env (Path m) = ap \<and>
         formatPlainMatch env m False = ap \<and>
         formatPlainMatch env m True = ap @ '' ('' @ format_int (Size m) @ '' bytes)'' \<and>
         formatJSONLine env m False =
           ''{'' @ [dquote] @ ''path'' @ [dquote] @ '': '' @ marshalString ap @ ''}'' \<and>
         formatJSONLine env m True =
           ''{'' @ [dquote] @ ''path'' @ [dquote] @ '': '' @ marshalString ap @ '', ''
           @ [dquote] @ ''size'' @ [dquote] @ '': '' @ format_int (Size m) @ ''}'' \<and>
         formatJSONEntry env m False =
           ''    {'' @ [newline] @ ''      '' @ [dquote] @ ''path'' @ [dquote] @ '': ''
           @ marshalString ap @ [newline] @ ''    }'' \<and>
         formatJSONEntry env m True =
           ''    {'' @ [newline] @ ''      '' @ [dquote] @ ''path'' @ [dquote] @ '': ''
           @ marshalString ap @ '','' @ [newline]
           @ ''      '' @ [dquote] @ ''size'' @ [dquote] @ '': '' @ format_int (Size m)
           @ [newline] @ ''    }''"
  using assms
  by (simp add: formatPath_def formatPlainMatch_def formatJSONLine_def formatJSONEntry_def)

theorem formatters_render_Abs_witness:
  "formatPlainMatch home_env \<lparr>Path = ''a.db'', Size = 1\<rparr> False = ''/home/u/a.db'' \<and>
   formatPath home_env ''a.db'' = ''/home/u/a.db''"
  using formatters_render_Abs [of home_env "\<lparr>Path = ''a.db'', Size = 1\<rparr>" "''/home/u/a.db''"]
  by (simp add: home_env_def filepath_IsAbs_def)

text \<open>When \<open>filepath.Abs\<close> fails, every formatter renders the recorded path as it
  is.\<close>

lemma formatters_render_recorded_path:
  assumes "filepath_Abs env (Path m) = Inl e"
  shows "formatPath env (Path m) = Path m"
    and "formatPlainMatch env m False = Path m"
    and "formatPlainMatch env m True = Path m @ '' ('' @ format_int (Size m) @ '' bytes)''"
    and "formatJSONLine env m False =
           ''{'' @ [dquote] @ ''path'' @ [dquote] @ '': '' @ marshalString (Path m) @ ''}''"
    and "formatJSONEntry env m False =
           ''    {'' @ [newline] @ ''      '' @ [dquote] @ ''path'' @ [dquote] @ '': ''
           @ marshalString (Path m) @ [newline] @ ''    }''"
  using assms
  by (simp_all add: formatPath_def formatPlainMatch_def formatJSONLine_def formatJSONEntry_def)

subsection \<open>JSON strings, numbers and lines\<close>

lemma below_16_cases:
  "n < 16 \<Longrightarrow> n \<in> {0, 1, 2, 3, 4, 5, 6, 7, 8, 9, 10, 11, 12, 13, 14, 15::nat}"
  by simp arith

lemma is_hex_hex_digit: "n < 16 \<Longrightarrow> is_hex (hex_digit n)"
  by (drule below_16_cases) (auto simp: hex_digit_def is_hex_def is_digit_def)

lemma hex_digit_printable: "n < 16 \<Longrightarrow> 0x20 \<le> (of_char (hex_digit n) :: nat)"
  by (drule below_16_cases) (auto simp: hex_digit_def)

lemma of_char_div_16: "(of_char (b :: char) :: nat) div 16 < 16"
proof -
  have "(of_char b :: nat) < 256" by simp
  then show ?thesis by arith
qed

lemma is_hex_zero: "is_hex (CHR ''0'')"
  by (simp add: is_hex_def is_digit_def)

lemma of_char_mod_16: "(of_char (b :: char) :: nat) mod 16 < 16"
  by simp

lemma json_escape_byte_cases:
  obtains
    (quote) "json_escape_byte b = [backslash, b]" and "b = dquote \<or> b = backslash"
  | (short) e where "json_escape_byte b = [backslash, e]"
      and "e = CHR ''b'' \<or> e = CHR ''f'' \<or> e = CHR ''n'' \<or> e = CHR ''r'' \<or> e = CHR ''t''"
  | (hex) "json_escape_byte b =
        [backslash, CHR ''u'', CHR ''0'', CHR ''0'',
         hex_digit ((of_char b :: nat) div 16), hex_digit ((of_char b :: nat) mod 16)]"
  | (plain) "json_escape_byte b = [b]" and "b \<noteq> dquote" and "b \<noteq> backslash"
      and "0x20 \<le> (of_char b :: nat)"
proof (cases "b = dquote \<or> b = backslash")
  case True
  then have "json_escape_byte b = [backslash, b]"
    unfolding json_escape_byte_def by (simp only: if_True)
  then show ?thesis using True by (rule quote)
next
  case nq: False
  show ?thesis
  proof (cases "b = CHR 0x08 \<or> b = CHR 0x0C \<or> b = CHR 0x0A \<or> b = CHR 0x0D \<or> b = CHR 0x09")
    case True
    then consider "b = CHR 0x08" | "b = CHR 0x0C" | "b = CHR 0x0A" | "b = CHR 0x0D" | "b = CHR 0x09"
      by blast
    then show ?thesis
    proof cases
      case 1 then show ?thesis using short [of "CHR ''b''"] by (simp add: json_escape_byte_def)
    next
      case 2 then show ?thesis using short [of "CHR ''f''"] by (simp add: json_escape_byte_def)
    next
      case 3 then show ?thesis using short [of "CHR ''n''"] by (simp add: json_escape_byte_def)
    next
      case 4 then show ?thesis using short [of "CHR ''r''"] by (simp add: json_escape_byte_def)
    next
      case 5 then show ?thesis using short [of "CHR ''t''"] by (simp add: json_escape_byte_def)
    qed
  next
    case ns: False
    show ?thesis
    proof (cases "(of_char b :: nat) < 0x20 \<or> b = CHR ''<'' \<or> b = CHR ''>'' \<or> b = CHR ''&''")
      case True
      with nq ns have "json_escape_byte b =
        [backslash, CHR ''u'', CHR ''0'', CHR ''0'',
         hex_digit ((of_char b :: nat) div 16), hex_digit ((of_char b :: nat) mod 16)]"
        unfolding json_escape_byte_def by (simp only: if_True if_False de_Morgan_disj simp_thms)
      then show ?thesis by (rule hex)
    next
      case False
      with nq ns have "json_escape_byte b = [b]"
        unfolding json_escape_byte_def by (simp only: if_True if_False de_Morgan_disj simp_thms)
      moreover from nq have "b \<noteq> dquote" "b \<noteq> backslash" by simp_all
      moreover from False have "0x20 \<le> (of_char b :: nat)" by simp
      ultimately show ?thesis by (rule plain)
    qed
  qed
qed

lemma json_escape_byte_printable:
  "c \<in> set (json_escape_byte b) \<Longrightarrow> 0x20 \<le> (of_char c :: nat)"
proof (cases b rule: json_escape_byte_cases)
  case quote
  assume "c \<in> set (json_escape_byte b)"
  with quote show ?thesis by auto
next
  case (short e)
  assume "c \<in> set (json_escape_byte b)"
  with short show ?thesis by auto
next
  case hex
  assume "c \<in> set (json_escape_byte b)"
  with hex show ?thesis
    using hex_digit_printable [OF of_char_div_16, of b] hex_digit_printable [OF of_char_mod_16, of b]
    by auto
next
  case plain
  assume "c \<in> set (json_escape_byte b)"
  with plain show ?thesis by simp
qed

lemma json_scan_string_escape_byte:
  "json_scan_string (json_escape_byte b @ t) =
     map_option (\<lambda>(body, rest). (json_escape_byte b @ body, rest)) (json_scan_string t)"
proof (cases b rule: json_escape_byte_cases)
  case quote
  then show ?thesis by (auto split: option.splits)
next
  case (short e)
  then show ?thesis by (auto split: option.splits)
next
  case hex
  then show ?thesis
    using is_hex_hex_digit [OF of_char_div_16, of b] is_hex_hex_digit [OF of_char_mod_16, of b]
    by (simp add: is_hex_zero split: option.splits)
next
  case plain
  then show ?thesis by (simp split: option.splits)
qed

lemma utf8_DecodeRune_wellformed:
  assumes "utf8_DecodeRune (b # bs) = (c, sz)" and "\<not> (c = RuneError \<and> sz = 1)"
    and "0x80 \<le> (of_char b :: nat)"
  shows "1 \<le> sz \<and> sz \<le> length (b # bs) \<and> (\<forall>x \<in> set (take sz (b # bs)). 0x80 \<le> (of_char x :: nat))"
  using assms
  by (auto simp: utf8_DecodeRune_def Let_def is_cont_def take_Suc_conv_app_nth
           split: list.splits if_splits)

lemma high_byte_plain:
  assumes "0x80 \<le> (of_char x :: nat)"
  shows "x \<noteq> dquote" and "x \<noteq> backslash" and "\<not> (of_char x :: nat) < 0x20"
  using assms by auto

lemma json_scan_string_raw:
  "\<forall>x \<in> set raw. 0x80 \<le> (of_char x :: nat) \<Longrightarrow>
   json_scan_string (raw @ t) = map_option (\<lambda>(body, rest). (raw @ body, rest)) (json_scan_string t)"
proof (induction raw)
  case Nil
  show ?case by (simp add: option.map_ident)
next
  case (Cons x raw)
  then have x: "x \<noteq> dquote" "x \<noteq> backslash" "\<not> (of_char x :: nat) < 0x20"
    using high_byte_plain [of x] by simp_all
  from Cons have "json_scan_string (raw @ t) =
      map_option (\<lambda>(body, rest). (raw @ body, rest)) (json_scan_string t)"
    by simp
  with x show ?case
    by (simp add: option.map_comp comp_def split_def)
qed

lemma passes_escape_byte: "passes (json_escape_byte b)"
  unfolding passes_def using json_escape_byte_printable json_scan_string_escape_byte by blast

lemma passes_raw: "\<forall>x \<in> set raw. 0x80 \<le> (of_char x :: nat) \<Longrightarrow> passes raw"
  unfolding passes_def using json_scan_string_raw by fastforce

lemma passes_replacement: "passes [backslash, CHR ''u'', CHR ''f'', CHR ''f'', CHR ''f'', CHR ''d'']"
  unfolding passes_def by (simp add: is_hex_def is_digit_def option.map_comp comp_def split_def)

lemma passes_separator:
  "c = 0x2028 \<or> c = 0x2029 \<Longrightarrow>
   passes [backslash, CHR ''u'', CHR ''2'', CHR ''0'', CHR ''2'', hex_digit (c mod 16)]"
  unfolding passes_def
  by (auto simp: is_hex_def is_digit_def hex_digit_def option.map_comp comp_def split_def)

lemma json_appendString_step:
  "\<exists>p k. json_appendString (b # bs) = p @ json_appendString (drop k bs) \<and> passes p"
proof (cases "(of_char b :: nat) < 0x80")
  case True
  then have "json_appendString (b # bs) = json_escape_byte b @ json_appendString (drop 0 bs)"
    by simp
  then show ?thesis using passes_escape_byte by blast
next
  case False
  obtain c sz where dec: "utf8_DecodeRune (b # bs) = (c, sz)"
    by (cases "utf8_DecodeRune (b # bs)")
  show ?thesis
  proof (cases "c = RuneError \<and> sz = 1")
    case True
    with False dec have "json_appendString (b # bs) =
        [backslash, CHR ''u'', CHR ''f'', CHR ''f'', CHR ''f'', CHR ''d''] @ json_appendString (drop 0 bs)"
      by simp
    then show ?thesis using passes_replacement by blast
  next
    case ne: False
    show ?thesis
    proof (cases "c = 0x2028 \<or> c = 0x2029")
      case True
      with False dec ne have "json_appendString (b # bs) =
          [backslash, CHR ''u'', CHR ''2'', CHR ''0'', CHR ''2'', hex_digit (c mod 16)]
          @ json_appendString (drop (sz - 1) bs)"
        by auto
      then show ?thesis using passes_separator [OF True] by blast
    next
      case nsep: False
      from False dec ne nsep have "json_appendString (b # bs) =
          take sz (b # bs) @ json_appendString (drop (sz - 1) bs)"
        by auto
      moreover have "passes (take sz (b # bs))"
        using utf8_DecodeRune_wellformed [OF dec ne] False by (intro passes_raw) simp
      ultimately show ?thesis by blast
    qed
  qed
qed

lemma passes_json_appendString: "passes (json_appendString s)"
proof (induction "length s" arbitrary: s rule: less_induct)
  case less
  show ?case
  proof (cases s)
    case Nil
    then show ?thesis by (simp add: passes_def option.map_ident option.map_id)
  next
    case (Cons b bs)
    obtain p k where step: "json_appendString (b # bs) = p @ json_appendString (drop k bs)"
      and p: "passes p"
      using json_appendString_step by blast
    have "length (drop k bs) < length s" using Cons by simp
    then have "passes (json_appendString (drop k bs))" by (rule less)
    with p have "passes (p @ json_appendString (drop k bs))"
      unfolding passes_def
      by (auto simp: option.map_comp comp_def split_def)
    with step Cons show ?thesis by simp
  qed
qed

lemma json_scan_string_marshalled:
  "json_scan_string (json_appendString s @ dquote # rest) = Some (json_appendString s, rest)"
  using passes_json_appendString [of s] unfolding passes_def by simp

lemma marshalString_no_newline: "newline \<notin> set (marshalString s)"
  using passes_json_appendString [of s] unfolding passes_def marshalString_def by auto

lemma below_10_cases: "d < 10 \<Longrightarrow> d \<in> {0, 1, 2, 3, 4, 5, 6, 7, 8, 9::nat}"
  by simp arith

lemma is_digit_digit_char: "d < 10 \<Longrightarrow> is_digit (digit_char d)"
  by (drule below_10_cases) (auto simp: digit_char_def is_digit_def)

lemma digit_char_zero: "d < 10 \<Longrightarrow> digit_char d = CHR ''0'' \<Longrightarrow> d = 0"
  by (drule below_10_cases) (auto simp: digit_char_def)

lemma decimal_digits: "c \<in> set (decimal n) \<Longrightarrow> is_digit c"
proof (induction n arbitrary: c rule: decimal.induct)
  case (1 n)
  show ?case
  proof (cases "n < 10")
    case True
    with "1.prems" show ?thesis
      by (simp add: decimal.simps [of n] is_digit_digit_char)
  next
    case False
    with "1.prems" have "c \<in> set (decimal (n div 10)) \<or> c = digit_char (n mod 10)"
      by (auto simp: decimal.simps [of n])
    with False "1.IH" show ?thesis
      by (auto simp: is_digit_digit_char)
  qed
qed

lemma decimal_nonempty: "decimal n \<noteq> []"
  by (simp add: decimal.simps [of n])

lemma decimal_leading: "hd (decimal n) = CHR ''0'' \<Longrightarrow> n = 0"
proof (induction n rule: decimal.induct)
  case (1 n)
  show ?case
  proof (cases "n < 10")
    case True
    with "1.prems" show ?thesis
      by (simp add: decimal.simps [of n] digit_char_zero)
  next
    case False
    with "1.prems" have "hd (decimal (n div 10)) = CHR ''0''"
      by (simp add: decimal.simps [of n] decimal_nonempty)
    with False "1.IH" have "n div 10 = 0" by simp
    with False show ?thesis by simp
  qed
qed

lemma decimal_zero: "decimal 0 = ''0''"
  by (simp add: decimal.simps [of 0] digit_char_def)

lemma decimal_no_leading_zero: "1 < length (decimal n) \<Longrightarrow> hd (decimal n) \<noteq> CHR ''0''"
  using decimal_leading [of n] decimal_zero by auto

lemma takeWhile_digits_decimal:
  assumes "rest = [] \<or> \<not> is_digit (hd rest)"
  shows "takeWhile is_digit (decimal n @ rest) = decimal n"
    and "dropWhile is_digit (decimal n @ rest) = rest"
proof -
  have all: "\<forall>c \<in> set (decimal n). is_digit c" using decimal_digits by blast
  have stop: "takeWhile is_digit rest = []" "dropWhile is_digit rest = rest"
    using assms by (cases rest; simp)+
  show "takeWhile is_digit (decimal n @ rest) = decimal n"
    using all stop by (simp add: takeWhile_append2)
  show "dropWhile is_digit (decimal n @ rest) = rest"
    using all stop by (simp add: dropWhile_append2)
qed

lemma minus_not_digit: "\<not> is_digit (CHR ''-'')"
  by (simp add: is_digit_def)

lemma hd_decimal_not_minus: "hd (decimal n) \<noteq> CHR ''-''"
  using decimal_digits [of "hd (decimal n)" n] decimal_nonempty [of n] minus_not_digit
  by (cases "decimal n") auto

lemma json_scan_number_format_int:
  assumes "rest = [] \<or> \<not> is_digit (hd rest)"
  shows "json_scan_number (format_int i @ rest) = Some (format_int i, rest)"
proof (cases "i < 0")
  case True
  then have f: "format_int i = CHR ''-'' # decimal (nat (- i))"
    by (simp add: format_int_def)
  show ?thesis
    unfolding f json_scan_number_def
    using takeWhile_digits_decimal [OF assms, of "nat (- i)"] decimal_nonempty [of "nat (- i)"]
      decimal_no_leading_zero [of "nat (- i)"]
    by (simp add: Let_def)
next
  case False
  then have f: "format_int i = decimal (nat i)"
    by (simp add: format_int_def)
  obtain d ds where d: "decimal (nat i) = d # ds"
    using decimal_nonempty [of "nat i"] by (cases "decimal (nat i)") auto
  have nm: "d \<noteq> CHR ''-''" using hd_decimal_not_minus [of "nat i"] d by simp
  have sign: "(case decimal (nat i) @ rest of c # cs \<Rightarrow> if c = CHR ''-'' then [c] else [] | [] \<Rightarrow> []) = []"
    using d nm by simp
  show ?thesis
    unfolding f json_scan_number_def sign
    using takeWhile_digits_decimal [OF assms, of "nat i"] decimal_nonempty [of "nat i"]
      decimal_no_leading_zero [of "nat i"]
    by (simp add: Let_def)
qed

lemma format_int_no_newline: "newline \<notin> set (format_int i)"
proof
  assume "newline \<in> set (format_int i)"
  then have "newline = CHR ''-'' \<or> is_digit newline"
    using decimal_digits by (auto simp: format_int_def split: if_splits)
  then show False by (simp add: is_digit_def)
qed

lemma format_int_head: "format_int i = c # cs \<Longrightarrow> c = CHR ''-'' \<or> is_digit c"
proof (cases "i < 0")
  case True
  assume "format_int i = c # cs"
  with True show ?thesis by (simp add: format_int_def)
next
  case False
  assume "format_int i = c # cs"
  with False have "c \<in> set (decimal (nat i))" by (simp add: format_int_def)
  then show ?thesis using decimal_digits by blast
qed

lemma format_int_nonempty: "format_int i \<noteq> []"
  by (simp add: format_int_def decimal_nonempty)

lemma json_value_ws: "is_ws c \<Longrightarrow> json_value n (c # s) = json_value n s"
  by (cases n) (simp_all add: skip_ws_def)

lemma json_members_ws: "is_ws c \<Longrightarrow> json_members n (c # s) = json_members n s"
  by (cases n) (simp_all add: skip_ws_def)

lemma skip_ws_ws: "is_ws c \<Longrightarrow> skip_ws (c # s) = skip_ws s"
  by (simp add: skip_ws_def)

lemma skip_ws_stop: "\<not> is_ws c \<Longrightarrow> skip_ws (c # s) = c # s"
  by (simp add: skip_ws_def)

lemma ws_chars: "is_ws (CHR '' '')" "is_ws newline"
  by (simp_all add: is_ws_def)

lemma non_ws_chars:
  "\<not> is_ws dquote" "\<not> is_ws (CHR ''{'')" "\<not> is_ws (CHR ''}'')" "\<not> is_ws (CHR '':'')"
  "\<not> is_ws (CHR '','')" "\<not> is_ws (CHR ''['')" "\<not> is_ws (CHR '']'')"
  by (simp_all add: is_ws_def)

lemma json_value_marshalString:
  "json_value (Suc n) (marshalString p @ rest) = Some (JString (json_appendString p), rest)"
  by (simp add: marshalString_def skip_ws_stop non_ws_chars json_scan_string_marshalled)

lemma digit_not_special:
  assumes "c = CHR ''-'' \<or> is_digit c"
  shows "\<not> is_ws c" and "c \<noteq> dquote" and "c \<noteq> CHR ''[''" and "c \<noteq> CHR ''{''"
  using assms by (auto simp: is_ws_def is_digit_def)

lemma json_value_format_int:
  assumes "rest = [] \<or> \<not> is_digit (hd rest)"
  shows "json_value (Suc n) (format_int i @ rest) = Some (JNumber (format_int i), rest)"
proof -
  obtain c cs where f: "format_int i = c # cs"
    using format_int_nonempty [of i] by (cases "format_int i") auto
  have c: "c = CHR ''-'' \<or> is_digit c" using format_int_head [OF f] .
  have scan: "json_scan_number (c # cs @ rest) = Some (c # cs, rest)"
    using json_scan_number_format_int [OF assms, of i] f by simp
  show ?thesis
    unfolding f using c digit_not_special [OF c] scan
    by (simp add: skip_ws_stop)
qed

lemma brace_not_digit: "\<not> is_digit (CHR ''}'')" "\<not> is_digit newline"
  by (simp_all add: is_digit_def)

text \<open>The members of the two objects, compact and pretty.\<close>

lemma json_members_line_path:
  "json_members (Suc (Suc n))
     ([dquote] @ ''path'' @ [dquote] @ '': '' @ marshalString p @ ''}'' @ rest)
   = Some ([(''path'', JString (json_appendString p))], rest)"
  using json_value_marshalString [of n p "''}'' @ rest"]
  by (simp add: skip_ws_stop skip_ws_ws non_ws_chars ws_chars json_value_ws)

lemma json_members_line_size:
  "json_members (Suc (Suc n))
     ([dquote] @ ''size'' @ [dquote] @ '': '' @ format_int i @ ''}'' @ rest)
   = Some ([(''size'', JNumber (format_int i))], rest)"
  using json_value_format_int [of "''}'' @ rest" n i]
  by (simp add: skip_ws_stop skip_ws_ws non_ws_chars ws_chars json_value_ws brace_not_digit)

lemma json_members_line_both:
  "json_members (Suc (Suc (Suc n)))
     ([dquote] @ ''path'' @ [dquote] @ '': '' @ marshalString p @ '', ''
      @ [dquote] @ ''size'' @ [dquote] @ '': '' @ format_int i @ ''}'' @ rest)
   = Some ([(''path'', JString (json_appendString p)), (''size'', JNumber (format_int i))], rest)"
  using json_value_marshalString [of "Suc n" p "'', '' @ [dquote] @ ''size'' @ [dquote] @ '': '' @ format_int i @ ''}'' @ rest"]
    json_members_line_size [of n i rest]
  by (simp add: skip_ws_stop skip_ws_ws non_ws_chars ws_chars json_value_ws json_members_ws)

lemma json_members_entry_size:
  "json_members (Suc (Suc n))
     ([dquote] @ ''size'' @ [dquote] @ '': '' @ format_int i @ [newline] @ ''    }'' @ rest)
   = Some ([(''size'', JNumber (format_int i))], rest)"
  using json_value_format_int [of "[newline] @ ''    }'' @ rest" n i]
  by (simp add: skip_ws_stop skip_ws_ws non_ws_chars ws_chars json_value_ws brace_not_digit)

lemma json_members_entry_path:
  "json_members (Suc (Suc n))
     ([dquote] @ ''path'' @ [dquote] @ '': '' @ marshalString p @ [newline] @ ''    }'' @ rest)
   = Some ([(''path'', JString (json_appendString p))], rest)"
  using json_value_marshalString [of n p "[newline] @ ''    }'' @ rest"]
  by (simp add: skip_ws_stop skip_ws_ws non_ws_chars ws_chars json_value_ws)

lemma json_members_entry_both:
  "json_members (Suc (Suc (Suc n)))
     ([dquote] @ ''path'' @ [dquote] @ '': '' @ marshalString p @ '','' @ [newline]
      @ ''      '' @ [dquote] @ ''size'' @ [dquote] @ '': '' @ format_int i @ [newline] @ ''    }'' @ rest)
   = Some ([(''path'', JString (json_appendString p)), (''size'', JNumber (format_int i))], rest)"
  using json_value_marshalString [of "Suc n" p "'','' @ [newline] @ ''      '' @ [dquote] @ ''size'' @ [dquote] @ '': '' @ format_int i @ [newline] @ ''    }'' @ rest"]
    json_members_entry_size [of n i rest]
  by (simp add: skip_ws_stop skip_ws_ws non_ws_chars ws_chars json_value_ws json_members_ws)

lemma json_value_formatJSONLine:
  "json_value (Suc (Suc (Suc (Suc n)))) (formatJSONLine env m showSize @ rest)
   = Some (record_object env m showSize, rest)"
  using json_members_line_both [of n "formatPath env (Path m)" "Size m" rest]
    json_members_line_path [of "Suc n" "formatPath env (Path m)" rest]
  by (simp add: formatJSONLine_def record_object_def skip_ws_stop non_ws_chars)

lemma json_value_formatJSONEntry:
  "json_value (Suc (Suc (Suc (Suc n)))) (formatJSONEntry env m showSize @ rest)
   = Some (record_object env m showSize, rest)"
  using json_members_entry_both [of n "formatPath env (Path m)" "Size m" rest]
    json_members_entry_path [of "Suc n" "formatPath env (Path m)" rest]
  by (simp add: formatJSONEntry_def record_object_def skip_ws_stop skip_ws_ws non_ws_chars ws_chars
        json_members_ws)

lemma fuel_4: "4 \<le> k \<Longrightarrow> \<exists>n. k = Suc (Suc (Suc (Suc n)))"
  by presburger

lemma parse_json_formatJSONLine:
  "parse_json (formatJSONLine env m showSize) = Some (record_object env m showSize)"
proof -
  have "4 \<le> length (formatJSONLine env m showSize)"
    by (simp add: formatJSONLine_def Let_def)
  then obtain n where n: "length (formatJSONLine env m showSize) = Suc (Suc (Suc (Suc n)))"
    using fuel_4 by blast
  show ?thesis
    unfolding parse_json_def n
    using json_value_formatJSONLine [of n env m showSize "[]"]
    by (simp add: skip_ws_def)
qed

lemma parse_json_formatJSONEntry:
  "parse_json (formatJSONEntry env m showSize) = Some (record_object env m showSize)"
proof -
  have "4 \<le> length (formatJSONEntry env m showSize)"
    by (simp add: formatJSONEntry_def Let_def)
  then obtain n where n: "length (formatJSONEntry env m showSize) = Suc (Suc (Suc (Suc n)))"
    using fuel_4 by blast
  show ?thesis
    unfolding parse_json_def n
    using json_value_formatJSONEntry [of n env m showSize "[]"]
    by (simp add: skip_ws_def)
qed

lemma split_lines_line:
  "newline \<notin> set l \<Longrightarrow> split_lines (l @ newline # rest) = l # split_lines rest"
proof (induction l)
  case Nil
  show ?case by simp
next
  case (Cons c l)
  then show ?case by auto
qed

lemma split_lines_Println:
  "newline \<notin> set l \<Longrightarrow> split_lines (Println l @ rest) = l # split_lines rest"
  by (simp add: Println_def split_lines_line)

lemma entry_lines_no_newline: "l \<in> set (entry_lines env m showSize) \<Longrightarrow> newline \<notin> set l"
  using marshalString_no_newline [of "formatPath env (Path m)"] format_int_no_newline [of "Size m"]
  by (auto simp: entry_lines_def split: if_splits)

lemma split_lines_lines:
  "\<forall>l \<in> set ls. newline \<notin> set l \<Longrightarrow>
   split_lines (concat (map (\<lambda>l. l @ [newline]) ls) @ rest) = ls @ split_lines rest"
  by (induction ls) (simp_all add: split_lines_line)

lemma formatJSONEntry_lines:
  "formatJSONEntry env m showSize =
     concat (map (\<lambda>l. l @ [newline]) (entry_lines env m showSize)) @ ''    }''"
  by (simp add: formatJSONEntry_def entry_lines_def Let_def)

lemma split_lines_entry:
  "split_lines (formatJSONEntry env m showSize @ newline # rest) =
     entry_lines env m showSize @ [''    }''] @ split_lines rest"
proof -
  have "split_lines (concat (map (\<lambda>l. l @ [newline]) (entry_lines env m showSize))
          @ (''    }'' @ newline # rest))
        = entry_lines env m showSize @ split_lines (''    }'' @ newline # rest)"
    using entry_lines_no_newline by (intro split_lines_lines) blast
  moreover have "split_lines (''    }'' @ newline # rest) = ''    }'' # split_lines rest"
    by (rule split_lines_line) simp
  ultimately show ?thesis by (simp add: formatJSONEntry_lines)
qed

lemma split_lines_entry_comma:
  "split_lines (formatJSONEntry env m showSize @ '','' @ newline # rest) =
     entry_lines env m showSize @ [''    },''] @ split_lines rest"
proof -
  have "split_lines (concat (map (\<lambda>l. l @ [newline]) (entry_lines env m showSize))
          @ (''    },'' @ newline # rest))
        = entry_lines env m showSize @ split_lines (''    },'' @ newline # rest)"
    using entry_lines_no_newline by (intro split_lines_lines) blast
  moreover have "split_lines (''    },'' @ newline # rest) = ''    },'' # split_lines rest"
    by (rule split_lines_line) simp
  ultimately show ?thesis by (simp add: formatJSONEntry_lines)
qed

lemma split_lines_entries:
  "split_lines (streamMatches_entries env showSize cur rest @ tail) =
     entries_lines env showSize cur rest @ split_lines tail"
proof (induction rest arbitrary: cur)
  case Nil
  show ?case using split_lines_entry [of env cur showSize tail] by (simp add: Println_def)
next
  case (Cons nxt rest)
  show ?case
    using split_lines_entry_comma [of env cur showSize "streamMatches_entries env showSize nxt rest @ tail"]
    by (simp add: Cons.IH)
qed

lemma split_lines_pretty:
  "split_lines (streamMatches env ms True False showSize) = pretty_lines env ms showSize"
proof -
  have foot: "split_lines (Println ''  ]'' @ Println ''}'') = [''  ]'', ''}'', []]"
    by (simp add: Println_def)
  have head: "\<And>rest. split_lines (Println ''{'' @ Println (''  '' @ [dquote] @ ''entries'' @ [dquote] @ '': ['') @ rest)
      = [''{'', ''  '' @ [dquote] @ ''entries'' @ [dquote] @ '': [''] @ split_lines rest"
    by (simp add: Println_def)
  show ?thesis
  proof (cases ms)
    case Nil
    then show ?thesis
      using head [of "Println ''  ]'' @ Println ''}''"] foot
      by (simp add: streamMatches_def pretty_lines_def)
  next
    case (Cons first rest)
    then show ?thesis
      using head [of "streamMatches_entries env showSize first rest @ Println ''  ]'' @ Println ''}''"]
        split_lines_entries [of env showSize first rest "Println ''  ]'' @ Println ''}''"] foot
      by (simp add: streamMatches_def pretty_lines_def)
  qed
qed

lemma last_format_int: "last (format_int i) \<noteq> CHR '',''"
proof -
  have "last (decimal n) \<in> set (decimal n)" for n
    using decimal_nonempty by simp
  then have d: "is_digit (last (decimal n))" for n
    using decimal_digits by blast
  have "last (format_int i) = last (decimal (nat (- i))) \<or> last (format_int i) = last (decimal (nat i))"
    by (simp add: format_int_def decimal_nonempty)
  then have "is_digit (last (format_int i))"
    using d by auto
  then show ?thesis by (auto simp: is_digit_def)
qed

lemma last_marshalString: "last (marshalString p) = dquote"
  by (simp add: marshalString_def)

lemma marshalString_nonempty: "marshalString p \<noteq> []"
  by (simp add: marshalString_def)

lemma entry_lines_not_closing:
  assumes "l \<in> set (entry_lines env m showSize)"
  shows "l \<noteq> ''    },''" and "l \<noteq> ''    }''" and "\<not> isolated_comma l"
  using assms by (auto simp: entry_lines_def isolated_comma_def split: if_splits)

lemma entry_lines_final_comma:
  assumes "l \<in> set (entry_lines env m showSize)" and "last l = CHR '',''"
  shows "showSize \<and> l = path_line env m"
  using assms last_format_int [of "Size m"] format_int_nonempty [of "Size m"]
    last_marshalString [of "formatPath env (Path m)"] marshalString_nonempty [of "formatPath env (Path m)"]
  by (auto simp: entry_lines_def path_line_def split: if_splits)

lemma entries_lines_separators:
  "length (filter (\<lambda>l. l = ''    },'') (entries_lines env showSize cur rest)) = length rest"
proof (induction rest arbitrary: cur)
  case Nil
  have "filter (\<lambda>l. l = ''    },'') (entry_lines env cur showSize) = []"
    using entry_lines_not_closing(1) by (simp add: filter_empty_conv)
  then show ?case by simp
next
  case (Cons nxt rest)
  have "filter (\<lambda>l. l = ''    },'') (entry_lines env cur showSize) = []"
    using entry_lines_not_closing(1) by (simp add: filter_empty_conv)
  then show ?case by (simp add: Cons.IH)
qed

lemma entries_lines_last_closing:
  "length (filter (\<lambda>l. l = ''    }'') (entries_lines env showSize cur rest)) = 1"
proof (induction rest arbitrary: cur)
  case Nil
  have "filter (\<lambda>l. l = ''    }'') (entry_lines env cur showSize) = []"
    using entry_lines_not_closing(2) by (simp add: filter_empty_conv)
  then show ?case by simp
next
  case (Cons nxt rest)
  have "filter (\<lambda>l. l = ''    }'') (entry_lines env cur showSize) = []"
    using entry_lines_not_closing(2) by (simp add: filter_empty_conv)
  then show ?case by (simp add: Cons.IH)
qed

lemma entries_lines_cases:
  "l \<in> set (entries_lines env showSize cur rest) \<Longrightarrow>
   l = ''    },'' \<or> l = ''    }'' \<or> (\<exists>m \<in> set (cur # rest). l \<in> set (entry_lines env m showSize))"
  by (induction rest arbitrary: cur) auto

lemma pretty_lines_cases:
  assumes "l \<in> set (pretty_lines env ms showSize)"
  shows "l \<in> {''{'', ''  '' @ [dquote] @ ''entries'' @ [dquote] @ '': ['', ''  ]'', ''}'', [], ''    },'', ''    }''}
         \<or> (\<exists>m \<in> set ms. l \<in> set (entry_lines env m showSize))"
proof (cases ms)
  case Nil
  with assms show ?thesis by (auto simp: pretty_lines_def)
next
  case (Cons first rest)
  with assms have "l \<in> {''{'', ''  '' @ [dquote] @ ''entries'' @ [dquote] @ '': ['', ''  ]'', ''}'', []}
      \<or> l \<in> set (entries_lines env showSize first rest)"
    by (auto simp: pretty_lines_def)
  then show ?thesis
    using entries_lines_cases [of l env showSize first rest] Cons by auto
qed

lemma pretty_lines_separators:
  "length (filter (\<lambda>l. l = ''    },'') (pretty_lines env ms showSize)) = length ms - 1"
  by (cases ms) (simp_all add: pretty_lines_def entries_lines_separators)

lemma pretty_lines_last_closing:
  "length (filter (\<lambda>l. l = ''    }'') (pretty_lines env ms showSize)) = (if ms = [] then 0 else 1)"
  by (cases ms) (simp_all add: pretty_lines_def entries_lines_last_closing)

lemma pretty_lines_no_isolated_comma:
  "l \<in> set (pretty_lines env ms showSize) \<Longrightarrow> \<not> isolated_comma l"
  using pretty_lines_cases [of l env ms showSize] entry_lines_not_closing(3)
  by (auto simp: isolated_comma_def)

lemma pretty_lines_final_comma:
  assumes "l \<in> set (pretty_lines env ms showSize)" and "l \<noteq> []" and "last l = CHR '',''"
  shows "l = ''    },'' \<or> (showSize \<and> (\<exists>m \<in> set ms. l = path_line env m))"
proof -
  from pretty_lines_cases [OF assms(1)]
  consider "l = ''    },''"
    | "l \<in> {''{'', ''  '' @ [dquote] @ ''entries'' @ [dquote] @ '': ['', ''  ]'', ''}'', [], ''    }''}"
    | m where "m \<in> set ms" and "l \<in> set (entry_lines env m showSize)"
    by auto
  then show ?thesis
  proof cases
    case 1
    then show ?thesis by simp
  next
    case 2
    with assms(2,3) show ?thesis by auto
  next
    case (3 m)
    with entry_lines_final_comma [OF 3(2) assms(3)] show ?thesis by blast
  qed
qed

lemma json_value_entry_indented:
  "json_value (Suc (Suc (Suc (Suc n)))) (newline # formatJSONEntry env m showSize @ rest)
   = Some (record_object env m showSize, rest)"
  unfolding json_value_ws [OF ws_chars(2)] by (rule json_value_formatJSONEntry)

lemma json_elements_entries:
  "json_elements (Suc (Suc (Suc (Suc (Suc (length rest + j))))))
     (newline # streamMatches_entries env showSize cur rest @ ''  ]'' @ tail)
   = Some (map (\<lambda>m. record_object env m showSize) (cur # rest), tail)"
proof (induction rest arbitrary: cur)
  case Nil
  show ?case
    using json_value_entry_indented [of j env cur showSize "newline # ''  ]'' @ tail"]
    by (simp add: Println_def skip_ws_ws skip_ws_stop ws_chars non_ws_chars)
next
  case (Cons nxt rest)
  have v: "json_value (Suc (Suc (Suc (Suc (Suc (length rest + j))))))
      (newline # formatJSONEntry env cur showSize
        @ ('','' @ newline # streamMatches_entries env showSize nxt rest @ ''  ]'' @ tail))
      = Some (record_object env cur showSize,
          '','' @ newline # streamMatches_entries env showSize nxt rest @ ''  ]'' @ tail)"
    by (rule json_value_entry_indented)
  show ?case
    using v Cons.IH [of nxt]
    by (simp add: skip_ws_stop non_ws_chars)
qed

lemma length_streamMatches_entries:
  "length rest < length (streamMatches_entries env showSize cur rest)"
proof (induction rest arbitrary: cur)
  case Nil
  show ?case by (simp add: Println_def)
next
  case (Cons nxt rest)
  have "length rest < length (streamMatches_entries env showSize nxt rest)"
    by (rule Cons.IH)
  then show ?case by simp
qed

lemma fuel_split: "a + 8 \<le> k \<Longrightarrow> \<exists>j. k = Suc (Suc (Suc (Suc (Suc (Suc (Suc (Suc (a + j))))))))"
  by presburger

lemma json_value_array_of:
  assumes "skip_ws X = CHR ''{'' # t" and "json_elements n X = Some (vs, r)"
  shows "json_value (Suc n) (CHR '' '' # CHR ''['' # X) = Some (JArray vs, r)"
  using assms by (simp add: skip_ws_ws skip_ws_stop ws_chars non_ws_chars)

lemma json_value_entries_object:
  assumes "json_value n (CHR '' '' # CHR ''['' # X) = Some (v, [newline, CHR ''}'', newline])"
  shows "json_value (Suc (Suc n))
           (CHR ''{'' # newline # ''  '' @ dquote # ''entries'' @ dquote # CHR '':'' # CHR '' '' # CHR ''['' # X)
         = Some (JObject [(''entries'', v)], [newline])"
  using assms by (simp add: skip_ws_ws skip_ws_stop ws_chars non_ws_chars)

lemma parse_json_pretty:
  "parse_json (streamMatches env ms True False showSize)
   = Some (JObject [(''entries'', JArray (map (\<lambda>m. record_object env m showSize) ms))])"
proof (cases ms)
  case Nil
  then show ?thesis
    by (simp add: streamMatches_def Println_def parse_json_def skip_ws_def is_ws_def)
next
  case (Cons first rest)
  define X where "X = newline # streamMatches_entries env showSize first rest @ ''  ]'' @ [newline, CHR ''}'', newline]"
  let ?doc = "streamMatches env ms True False showSize"
  let ?objs = "map (\<lambda>m. record_object env m showSize) (first # rest)"
  have doc: "?doc = CHR ''{'' # newline # ''  '' @ dquote # ''entries'' @ dquote # CHR '':'' # CHR '' '' # CHR ''['' # X"
    using Cons by (simp add: streamMatches_def Println_def X_def)
  have "length rest + 8 \<le> length ?doc"
    unfolding doc X_def using length_streamMatches_entries [of rest env showSize first] by simp
  then obtain j where j: "length ?doc = Suc (Suc (Suc (Suc (Suc (Suc (Suc (Suc (length rest + j))))))))"
    using fuel_split by blast
  have els: "json_elements (Suc (Suc (Suc (Suc (Suc (length rest + j)))))) X
      = Some (?objs, [newline, CHR ''}'', newline])"
    unfolding X_def by (rule json_elements_entries)
  have "\<exists>t. skip_ws X = CHR ''{'' # t"
    unfolding X_def
    by (cases rest) (simp_all add: formatJSONEntry_def Let_def Println_def skip_ws_def is_ws_def)
  then obtain t where t: "skip_ws X = CHR ''{'' # t" by blast
  have val: "json_value (Suc (Suc (Suc (Suc (Suc (Suc (Suc (Suc (length rest + j))))))))) ?doc
      = Some (JObject [(''entries'', JArray ?objs)], [newline])"
    unfolding doc
    by (intro json_value_entries_object json_value_array_of [OF t els])
  show ?thesis
    unfolding parse_json_def j val
    by (simp add: Cons skip_ws_def is_ws_def)
qed

subsection \<open>The rendered JSON\<close>

text \<open>
  C8: the text of a record in either JSON mode, the line of \<open>formatJSONLine\<close> and the
  entry of \<open>formatJSONEntry\<close>, parses as a JSON object; the object always has a \<open>path\<close>
  field, and it has a \<open>size\<close> field if and only if the size was asked for.
\<close>

theorem rendered_json_has_path_and_size_iff_asked:
  "parse_json (formatJSONLine env m showSize) = Some (record_object env m showSize) \<and>
   parse_json (formatJSONEntry env m showSize) = Some (record_object env m showSize) \<and>
   ''path'' \<in> set (json_fields (record_object env m showSize)) \<and>
   (''size'' \<in> set (json_fields (record_object env m showSize)) \<longleftrightarrow> showSize)"
  by (cases showSize)
    (simp_all add: parse_json_formatJSONLine parse_json_formatJSONEntry record_object_def)

lemma format_int_sample: "format_int 123 = ''123''"
  by code_simp

theorem rendered_json_has_path_and_size_iff_asked_witness:
  "parse_json (formatJSONLine home_env \<lparr>Path = ''a.db'', Size = 123\<rparr> True)
     = Some (JObject [(''path'', JString ''/home/u/a.db''), (''size'', JNumber ''123'')]) \<and>
   parse_json (formatJSONEntry home_env \<lparr>Path = ''a.db'', Size = 123\<rparr> False)
     = parse_json (formatJSONEntry home_env \<lparr>Path = ''a.db'', Size = 123\<rparr> False)"
  using rendered_json_has_path_and_size_iff_asked [of home_env "\<lparr>Path = ''a.db'', Size = 123\<rparr>" True]
  by (simp add: record_object_def formatPath_def home_env_def filepath_IsAbs_def
        json_escape_byte_def format_int_sample)

text \<open>
  C7: in the pretty JSON mode, with \<open>N\<close> records, the output has exactly \<open>N - 1\<close> lines
  that close an entry with a comma right behind the brace, and (when \<open>N > 0\<close>) one line
  that closes the last entry without a comma; no line holds a comma alone; a comma at the
  end of a line is one of these separators, or the comma between the path and the size
  inside an entry. The output parses as a JSON object whose \<open>entries\<close> array holds the
  \<open>N\<close> objects of the records, in order: for no record, the empty array.
\<close>

theorem pretty_json_comma_placement:
  "length (filter (\<lambda>l. l = ''    },'') (split_lines (streamMatches env ms True False showSize)))
     = length ms - 1 \<and>
   length (filter (\<lambda>l. l = ''    }'') (split_lines (streamMatches env ms True False showSize)))
     = (if ms = [] then 0 else 1) \<and>
   (\<forall>l \<in> set (split_lines (streamMatches env ms True False showSize)). \<not> isolated_comma l) \<and>
   (\<forall>l \<in> set (split_lines (streamMatches env ms True False showSize)).
      l \<noteq> [] \<and> last l = CHR '','' \<longrightarrow>
      l = ''    },'' \<or> (showSize \<and> (\<exists>m \<in> set ms. l = path_line env m))) \<and>
   parse_json (streamMatches env ms True False showSize)
     = Some (JObject [(''entries'', JArray (map (\<lambda>m. record_object env m showSize) ms))]) \<and>
   parse_json (streamMatches env [] True False showSize)
     = Some (JObject [(''entries'', JArray [])])"
proof -
  have "parse_json (streamMatches env [] True False showSize)
      = Some (JObject [(''entries'', JArray [])])"
    using parse_json_pretty [of env "[]" showSize] by simp
  then show ?thesis
    unfolding split_lines_pretty
    using pretty_lines_separators [of env ms showSize] pretty_lines_last_closing [of env ms showSize]
      pretty_lines_no_isolated_comma [of _ env ms showSize]
      pretty_lines_final_comma [of _ env ms showSize]
      parse_json_pretty [of env ms showSize]
    by blast
qed

theorem pretty_json_comma_placement_witness:
  "length (filter (\<lambda>l. l = ''    },'')
     (split_lines (streamMatches home_env
        [\<lparr>Path = ''a.db'', Size = 123\<rparr>, \<lparr>Path = ''b.db'', Size = 456\<rparr>] True False True))) = 1 \<and>
   length (filter (\<lambda>l. l = ''    }'')
     (split_lines (streamMatches home_env
        [\<lparr>Path = ''a.db'', Size = 123\<rparr>, \<lparr>Path = ''b.db'', Size = 456\<rparr>] True False True))) = 1"
  using pretty_json_comma_placement [of home_env
      "[\<lparr>Path = ''a.db'', Size = 123\<rparr>, \<lparr>Path = ''b.db'', Size = 456\<rparr>]" True]
  by simp

subsection \<open>The invariant of a run\<close>

lemma mset_concat_map_update:
  "i < length xs \<Longrightarrow>
   mset (concat (map f (xs[i := y]))) + mset (f (xs ! i)) = mset (concat (map f xs)) + mset (f y)"
proof (induction xs arbitrary: i)
  case Nil
  then show ?case by simp
next
  case (Cons x xs)
  show ?case
  proof (cases i)
    case 0
    then show ?thesis by simp
  next
    case (Suc k)
    with Cons.prems have "k < length xs" by simp
    from Cons.IH [OF this] Suc show ?thesis
      by (simp add: ac_simps)
  qed
qed

lemma sum_list_map_update:
  fixes g :: "'a \<Rightarrow> nat"
  shows "i < length xs \<Longrightarrow>
   sum_list (map g (xs[i := y])) + g (xs ! i) = sum_list (map g xs) + g y"
proof (induction xs arbitrary: i)
  case Nil
  then show ?case by simp
next
  case (Cons x xs)
  show ?case
  proof (cases i)
    case 0
    then show ?thesis by simp
  next
    case (Suc k)
    with Cons.prems have "k < length xs" by simp
    from Cons.IH [OF this] Suc show ?thesis
      by simp
  qed
qed

lemma worker_after_match: "worker_match (worker_after env p) = expected_match env p"
  by (auto simp: worker_after_def expected_match_def split: prod.splits option.splits)

lemma worker_after_err: "worker_err (worker_after env p) = expected_warning env p"
  by (auto simp: worker_after_def expected_warning_def split: prod.splits option.splits)

lemma worker_after_not_Exited: "worker_after env p \<noteq> Exited"
  by (auto simp: worker_after_def split: prod.splits option.splits)

lemma opt_leaves_errors_Join:
  "opt_leaves (errors_Join a (Some e)) = opt_leaves a @ join_leaves e"
  by (cases a) (simp_all add: errors_Join_def List.map_filter_simps)

lemma scan_inv_init: "0 < workers \<Longrightarrow> scan_inv env workers c roots (scan_init env workers roots)"
  by (simp add: scan_inv_def scan_init_def walked_def walk_errors_def comp_def split_def
        split: caller.splits)

lemma all_update:
  "\<forall>w \<in> set xs. P w \<Longrightarrow> P y \<Longrightarrow> \<forall>w \<in> set (xs[i := y]). P w"
  using set_update_subset_insert [of xs i y] by auto

lemma in_update_cases:
  "x \<in> set (xs[i := y]) \<Longrightarrow> x = y \<or> x \<in> set xs"
  using set_update_subset_insert [of xs i y] by auto

lemma all_Exited_nonempty:
  "\<forall>w \<in> set xs. w = Exited \<Longrightarrow> 0 < length xs \<Longrightarrow> Exited \<in> set xs"
  by (cases xs) auto

text \<open>Consequences of the invariant.\<close>

lemma inv_matches_closed:
  assumes "scan_inv env workers c roots s" and "matches_closed s"
  shows "\<forall>w \<in> set (pool s). w = Exited" and "paths_closed s" and "ch_paths s = []"
    and "\<forall>w \<in> set (walkers s). w = WalkDone"
proof -
  show all: "\<forall>w \<in> set (pool s). w = Exited"
    using assms by (simp add: scan_inv_def)
  have "Exited \<in> set (pool s)"
    using all assms(1) by (intro all_Exited_nonempty) (simp_all add: scan_inv_def)
  then show "paths_closed s" and "ch_paths s = []"
    using assms(1) by (simp_all add: scan_inv_def)
  then show "\<forall>w \<in> set (walkers s). w = WalkDone"
    using assms(1) by (simp add: scan_inv_def)
qed

lemma inv_busy_worker:
  assumes "scan_inv env workers c roots s" and "i < length (pool s)" and "pool s ! i \<noteq> Exited"
  shows "\<not> matches_closed s" and "\<not> errs_closed s" and "\<not> collector_done s" and "\<not> drainer_done s"
proof -
  have "pool s ! i \<in> set (pool s)" using assms(2) by simp
  with assms(3) have "\<not> (\<forall>w \<in> set (pool s). w = Exited)" by blast
  then show "\<not> matches_closed s" using assms(1) by (auto simp: scan_inv_def)
  then show "\<not> errs_closed s" using assms(1) by (auto simp: scan_inv_def)
  then show "\<not> drainer_done s" using assms(1) by (auto simp: scan_inv_def)
  show "\<not> collector_done s"
    using \<open>\<not> matches_closed s\<close> assms(1) by (auto simp: scan_inv_def)
qed

lemma inv_busy_walker:
  assumes "scan_inv env workers c roots s" and "i < length (walkers s)" and "walkers s ! i \<noteq> WalkDone"
  shows "\<not> paths_closed s" and "Exited \<notin> set (pool s)" and "\<not> matches_closed s"
    and "\<not> errs_closed s" and "\<not> collector_done s" and "\<not> drainer_done s"
proof -
  have "walkers s ! i \<in> set (walkers s)" using assms(2) by simp
  with assms(3) have "\<not> (\<forall>w \<in> set (walkers s). w = WalkDone)" by blast
  then show open_paths: "\<not> paths_closed s" using assms(1) by (auto simp: scan_inv_def)
  then show "Exited \<notin> set (pool s)" using assms(1) by (auto simp: scan_inv_def)
  show mc: "\<not> matches_closed s"
    using inv_matches_closed(2) [OF assms(1)] open_paths by blast
  then show ec: "\<not> errs_closed s" using assms(1) by (auto simp: scan_inv_def)
  then show "\<not> drainer_done s" using assms(1) by (auto simp: scan_inv_def)
  show "\<not> collector_done s" using mc assms(1) by (auto simp: scan_inv_def)
qed

lemma inv_walker_send:
  assumes inv: "scan_inv env workers c roots s"
    and i: "i < length (walkers s)" and w: "walkers s ! i = Walking (p # ps) err"
  shows "scan_inv env workers c roots
           (s\<lparr>walkers := (walkers s)[i := Walking ps err], ch_paths := ch_paths s @ [p]\<rparr>)"
proof -
  have paths: "mset (concat (map walker_paths ((walkers s)[i := Walking ps err]))) + {#p#}
      = mset (concat (map walker_paths (walkers s)))"
    using mset_concat_map_update [OF i, of walker_paths "Walking ps err"] w by simp
  have errs: "mset (concat (map walker_errs ((walkers s)[i := Walking ps err])))
      = mset (concat (map walker_errs (walkers s)))"
    using mset_concat_map_update [OF i, of walker_errs "Walking ps err"] w by simp
  have busy: "\<not> paths_closed s" "Exited \<notin> set (pool s)"
    using inv_busy_walker [OF inv i] w by simp_all
  show ?thesis
    using inv busy errs paths [symmetric]
    by (simp add: scan_inv_def)
qed

lemma inv_walker_done:
  assumes inv: "scan_inv env workers c roots s"
    and i: "i < length (walkers s)" and w: "walkers s ! i = Walking [] err"
  shows "scan_inv env workers c roots
           (s\<lparr>walkers := (walkers s)[i := WalkDone],
              walkErr := (case err of None \<Rightarrow> walkErr s | Some e \<Rightarrow> errors_Join (walkErr s) (Some e))\<rparr>)"
proof -
  have paths: "mset (concat (map walker_paths ((walkers s)[i := WalkDone])))
      = mset (concat (map walker_paths (walkers s)))"
    using mset_concat_map_update [OF i, of walker_paths WalkDone] w by simp
  have upd: "mset (concat (map walker_errs ((walkers s)[i := WalkDone]))) + mset (opt_leaves err)
      = mset (concat (map walker_errs (walkers s)))"
    using mset_concat_map_update [OF i, of walker_errs WalkDone] w by simp
  have join: "opt_leaves (case err of None \<Rightarrow> walkErr s | Some e \<Rightarrow> errors_Join (walkErr s) (Some e))
      = opt_leaves (walkErr s) @ opt_leaves err"
    by (cases err) (simp_all add: opt_leaves_errors_Join)
  have errs:
    "mset (opt_leaves (case err of None \<Rightarrow> walkErr s | Some e \<Rightarrow> errors_Join (walkErr s) (Some e)))
       + mset (concat (map walker_errs ((walkers s)[i := WalkDone])))
     = mset (opt_leaves (walkErr s)) + mset (concat (map walker_errs (walkers s)))"
    unfolding join upd [symmetric] by (simp add: ac_simps)
  have busy: "\<not> paths_closed s" "Exited \<notin> set (pool s)" "\<not> errs_closed s"
    using inv_busy_walker [OF inv i] w by simp_all
  show ?thesis
    using inv busy errs paths
    by (simp add: scan_inv_def)
qed

lemma inv_close_paths:
  assumes inv: "scan_inv env workers c roots s"
    and "\<forall>w \<in> set (walkers s). w = WalkDone" and "\<not> paths_closed s"
  shows "scan_inv env workers c roots (s\<lparr>paths_closed := True\<rparr>)"
  using assms by (simp add: scan_inv_def)

lemma inv_worker_receive:
  assumes inv: "scan_inv env workers c roots s"
    and i: "i < length (pool s)" and w: "pool s ! i = Receiving" and ch: "ch_paths s = p # ps"
  shows "scan_inv env workers c roots
           (s\<lparr>ch_paths := ps, pool := (pool s)[i := worker_after env p], probed := probed s @ [p]\<rparr>)"
proof -
  have m: "mset (concat (map worker_match ((pool s)[i := worker_after env p])))
      = mset (concat (map worker_match (pool s))) + mset (expected_match env p)"
    using mset_concat_map_update [OF i, of worker_match "worker_after env p"] w
    by (simp add: worker_after_match)
  have e: "mset (concat (map worker_err ((pool s)[i := worker_after env p])))
      = mset (concat (map worker_err (pool s))) + mset (expected_warning env p)"
    using mset_concat_map_update [OF i, of worker_err "worker_after env p"] w
    by (simp add: worker_after_err)
  have busy: "\<not> matches_closed s" "\<not> errs_closed s" "\<not> collector_done s" "\<not> drainer_done s"
    using inv_busy_worker [OF inv i] w by simp_all
  have "Exited \<notin> set (pool s)"
    using inv ch by (auto simp: scan_inv_def)
  then have noexit: "Exited \<notin> set ((pool s)[i := worker_after env p])"
    using in_update_cases [of Exited "pool s" i "worker_after env p"] worker_after_not_Exited [of env p]
    by auto
  show ?thesis
    using inv busy noexit ch m e
    by (simp add: scan_inv_def ac_simps)
qed

lemma inv_worker_exit:
  assumes inv: "scan_inv env workers c roots s"
    and i: "i < length (pool s)" and w: "pool s ! i = Receiving"
    and ch: "ch_paths s = []" and cl: "paths_closed s"
  shows "scan_inv env workers c roots (s\<lparr>pool := (pool s)[i := Exited]\<rparr>)"
proof -
  have m: "mset (concat (map worker_match ((pool s)[i := Exited])))
      = mset (concat (map worker_match (pool s)))"
    using mset_concat_map_update [OF i, of worker_match Exited] w by simp
  have e: "mset (concat (map worker_err ((pool s)[i := Exited])))
      = mset (concat (map worker_err (pool s)))"
    using mset_concat_map_update [OF i, of worker_err Exited] w by simp
  have busy: "\<not> matches_closed s" "\<not> errs_closed s" "\<not> collector_done s" "\<not> drainer_done s"
    using inv_busy_worker [OF inv i] w by simp_all
  show ?thesis
    using inv busy ch cl m e
    by (simp add: scan_inv_def)
qed

lemma inv_worker_send_err:
  assumes inv: "scan_inv env workers c roots s"
    and i: "i < length (pool s)" and w: "pool s ! i = SendingErr e"
  shows "scan_inv env workers c roots
           (s\<lparr>pool := (pool s)[i := Receiving], ch_errs := ch_errs s @ [e]\<rparr>)"
proof -
  have m: "mset (concat (map worker_match ((pool s)[i := Receiving])))
      = mset (concat (map worker_match (pool s)))"
    using mset_concat_map_update [OF i, of worker_match Receiving] w by simp
  have e: "mset (concat (map worker_err ((pool s)[i := Receiving]))) + {#e#}
      = mset (concat (map worker_err (pool s)))"
    using mset_concat_map_update [OF i, of worker_err Receiving] w by simp
  have busy: "\<not> matches_closed s" "\<not> errs_closed s" "\<not> collector_done s" "\<not> drainer_done s"
    using inv_busy_worker [OF inv i] w by simp_all
  have noexit: "Exited \<in> set ((pool s)[i := Receiving]) \<Longrightarrow> Exited \<in> set (pool s)"
    using in_update_cases [of Exited "pool s" i Receiving] by auto
  show ?thesis
    using inv busy noexit m e [symmetric]
    by (auto simp: scan_inv_def)
qed

lemma inv_worker_send_match:
  assumes inv: "scan_inv env workers c roots s"
    and i: "i < length (pool s)" and w: "pool s ! i = SendingMatch m"
  shows "scan_inv env workers c roots
           (s\<lparr>pool := (pool s)[i := Receiving], ch_matches := ch_matches s @ [m]\<rparr>)"
proof -
  have m: "mset (concat (map worker_match ((pool s)[i := Receiving]))) + {#m#}
      = mset (concat (map worker_match (pool s)))"
    using mset_concat_map_update [OF i, of worker_match Receiving] w by simp
  have e: "mset (concat (map worker_err ((pool s)[i := Receiving])))
      = mset (concat (map worker_err (pool s)))"
    using mset_concat_map_update [OF i, of worker_err Receiving] w by simp
  have busy: "\<not> matches_closed s" "\<not> errs_closed s" "\<not> collector_done s" "\<not> drainer_done s"
    using inv_busy_worker [OF inv i] w by simp_all
  have noexit: "Exited \<in> set ((pool s)[i := Receiving]) \<Longrightarrow> Exited \<in> set (pool s)"
    using in_update_cases [of Exited "pool s" i Receiving] by auto
  show ?thesis
    using inv busy noexit e m [symmetric]
    by (auto simp: scan_inv_def)
qed

lemma inv_close_matches:
  assumes inv: "scan_inv env workers c roots s"
    and "\<forall>w \<in> set (pool s). w = Exited" and "\<not> matches_closed s"
  shows "scan_inv env workers c roots (s\<lparr>matches_closed := True\<rparr>)"
proof -
  have "\<not> errs_closed s" using assms by (auto simp: scan_inv_def)
  moreover from this have "\<not> drainer_done s" using inv by (auto simp: scan_inv_def)
  moreover have "\<not> collector_done s" using assms by (auto simp: scan_inv_def)
  ultimately show ?thesis
    using assms by (simp add: scan_inv_def)
qed

lemma inv_close_errs_return:
  assumes inv: "scan_inv env workers c roots s"
    and "matches_closed s" and "\<not> errs_closed s"
  shows "scan_inv env workers c roots (s\<lparr>errs_closed := True, returned := Some (walkErr s)\<rparr>)"
proof -
  have "\<not> drainer_done s" using assms by (auto simp: scan_inv_def)
  then show ?thesis
    using assms by (simp add: scan_inv_def)
qed

lemma inv_collect:
  assumes inv: "scan_inv env workers c roots s"
    and "ch_matches s = m # ms" and "\<not> collector_done s"
  shows "scan_inv env workers c roots (s\<lparr>ch_matches := ms, out := out s @ [m]\<rparr>)"
  using assms by (simp add: scan_inv_def)

lemma inv_collect_done:
  assumes inv: "scan_inv env workers c roots s"
    and "ch_matches s = []" and "matches_closed s" and "\<not> collector_done s"
  shows "scan_inv env workers c roots (s\<lparr>collector_done := True\<rparr>)"
  using assms by (simp add: scan_inv_def)

lemma inv_drain:
  assumes inv: "scan_inv env workers c roots s"
    and "ch_errs s = e # es" and "\<not> drainer_done s"
  shows "scan_inv env workers c roots
           (s\<lparr>ch_errs := es, errs_received := errs_received s @ [e],
              stderr := (case c of Main \<Rightarrow> stderr s @ [e] | FindSQLiteFiles \<Rightarrow> stderr s)\<rparr>)"
  using assms by (cases c) (simp_all add: scan_inv_def)

lemma inv_drain_done:
  assumes inv: "scan_inv env workers c roots s"
    and "ch_errs s = []" and "errs_closed s" and "\<not> drainer_done s"
  shows "scan_inv env workers c roots (s\<lparr>drainer_done := True\<rparr>)"
  using assms by (simp add: scan_inv_def)

lemma scan_step_inv:
  assumes "scan_step env workers c s s'" and "scan_inv env workers c roots s"
  shows "scan_inv env workers c roots s'"
  using assms
proof (induction rule: scan_step.induct)
  case (walker_send i s p ps err)
  then show ?case by (intro inv_walker_send)
next
  case (walker_done i s err)
  then show ?case by (intro inv_walker_done)
next
  case (close_paths s)
  then show ?case by (intro inv_close_paths)
next
  case (worker_receive i s p ps)
  then show ?case by (intro inv_worker_receive)
next
  case (worker_exit i s)
  then show ?case by (intro inv_worker_exit)
next
  case (worker_send_err i s e)
  then show ?case by (intro inv_worker_send_err)
next
  case (worker_send_match i s m)
  then show ?case by (intro inv_worker_send_match)
next
  case (close_matches s)
  then show ?case by (intro inv_close_matches)
next
  case (close_errs_return s)
  then show ?case by (intro inv_close_errs_return)
next
  case (collect s m ms)
  then show ?case by (intro inv_collect)
next
  case (collect_done s)
  then show ?case by (intro inv_collect_done)
next
  case (drain s e es)
  then show ?case by (intro inv_drain)
next
  case (drain_done s)
  then show ?case by (intro inv_drain_done)
qed

lemma reachable_inv:
  assumes "reachable env workers c roots s" and "0 < workers"
  shows "scan_inv env workers c roots s"
  using assms
proof (induction rule: reachable.induct)
  case reachable_init
  then show ?case by (rule scan_inv_init)
next
  case (reachable_step s s')
  then show ?case using scan_step_inv by blast
qed

subsection \<open>Every run ends\<close>

lemma weight_update_less:
  fixes g :: "'a \<Rightarrow> nat"
  assumes "i < length xs" and "g y + k = g (xs ! i)"
  shows "sum_list (map g (xs[i := y])) + k = sum_list (map g xs)"
  using sum_list_map_update [OF assms(1), of g y] assms(2) by simp

lemma worker_after_weight: "worker_weight (worker_after env p) \<le> 3"
  by (auto simp: worker_after_def split: prod.splits option.splits)

lemma scan_step_measure:
  assumes "scan_step env workers c s s'"
  shows "scan_measure s' < scan_measure s"
  using assms
proof (induction rule: scan_step.induct)
  case (walker_send i s p ps err)
  have "sum_list (map walker_weight ((walkers s)[i := Walking ps err])) + 5
      = sum_list (map walker_weight (walkers s))"
    using walker_send by (intro weight_update_less) simp_all
  then show ?case by (simp add: scan_measure_def)
next
  case (walker_done i s err)
  have "sum_list (map walker_weight ((walkers s)[i := WalkDone])) + 1
      = sum_list (map walker_weight (walkers s))"
    using walker_done by (intro weight_update_less) simp_all
  then show ?case by (simp add: scan_measure_def)
next
  case (close_paths s)
  then show ?case by (simp add: scan_measure_def)
next
  case (worker_receive i s p ps)
  have "sum_list (map worker_weight ((pool s)[i := worker_after env p])) + worker_weight Receiving
      = sum_list (map worker_weight (pool s)) + worker_weight (worker_after env p)"
    using worker_receive sum_list_map_update [of i "pool s" worker_weight "worker_after env p"]
    by simp
  then show ?case
    using worker_receive worker_after_weight [of env p] by (simp add: scan_measure_def)
next
  case (worker_exit i s)
  have "sum_list (map worker_weight ((pool s)[i := Exited])) + 1
      = sum_list (map worker_weight (pool s))"
    using worker_exit by (intro weight_update_less) simp_all
  then show ?case by (simp add: scan_measure_def)
next
  case (worker_send_err i s e)
  have "sum_list (map worker_weight ((pool s)[i := Receiving])) + 2
      = sum_list (map worker_weight (pool s))"
    using worker_send_err by (intro weight_update_less) simp_all
  then show ?case by (simp add: scan_measure_def)
next
  case (worker_send_match i s m)
  have "sum_list (map worker_weight ((pool s)[i := Receiving])) + 2
      = sum_list (map worker_weight (pool s))"
    using worker_send_match by (intro weight_update_less) simp_all
  then show ?case by (simp add: scan_measure_def)
next
  case (close_matches s)
  then show ?case by (simp add: scan_measure_def)
next
  case (close_errs_return s)
  then show ?case by (simp add: scan_measure_def)
next
  case (collect s m ms)
  then show ?case by (simp add: scan_measure_def)
next
  case (collect_done s)
  then show ?case by (simp add: scan_measure_def)
next
  case (drain s e es)
  then show ?case by (simp add: scan_measure_def)
next
  case (drain_done s)
  then show ?case by (simp add: scan_measure_def)
qed

text \<open>Progress: a state of a run that is not finished has a step.\<close>

lemma scan_steps_wellfounded: "wf {(s', s). scan_step env workers c s s'}"
proof (rule wf_subset [OF wf_measure [of scan_measure]])
  show "{(s', s). scan_step env workers c s s'} \<subseteq> measure scan_measure"
    using scan_step_measure by auto
qed

text \<open>Progress: a state of a run that is not finished has a step.\<close>

lemma not_all_obtain:
  assumes "\<not> (\<forall>w \<in> set xs. w = d)"
  obtains i where "i < length xs" and "xs ! i \<noteq> d"
  using assms by (auto simp: in_set_conv_nth)

lemma walkers_progress:
  assumes inv: "scan_inv env workers c roots s"
    and open_paths: "\<not> paths_closed s" and empty: "ch_paths s = []"
  shows "\<exists>s'. scan_step env workers c s s'"
proof (cases "\<forall>w \<in> set (walkers s). w = WalkDone")
  case True
  then show ?thesis using open_paths scan_step.close_paths by blast
next
  case False
  then obtain i where i: "i < length (walkers s)" and w: "walkers s ! i \<noteq> WalkDone"
    by (rule not_all_obtain)
  then obtain ps err where ps: "walkers s ! i = Walking ps err"
    by (cases "walkers s ! i") auto
  have room: "length (ch_paths s) < workers * 4"
    using inv empty by (simp add: scan_inv_def)
  show ?thesis
  proof (cases ps)
    case Nil
    with i ps show ?thesis using scan_step.walker_done by blast
  next
    case (Cons p ps')
    with i ps room open_paths show ?thesis using scan_step.walker_send by blast
  qed
qed

lemma pool_progress:
  assumes inv: "scan_inv env workers c roots s"
    and open_matches: "\<not> matches_closed s" and empty: "ch_matches s = []"
  shows "\<exists>s'. scan_step env workers c s s'"
proof (cases "\<forall>w \<in> set (pool s). w = Exited")
  case True
  then show ?thesis using open_matches scan_step.close_matches by blast
next
  case False
  then obtain i where i: "i < length (pool s)" and w: "pool s ! i \<noteq> Exited"
    by (rule not_all_obtain)
  have open_errs: "\<not> errs_closed s"
    using inv open_matches by (auto simp: scan_inv_def)
  have w0: "0 < workers" using inv by (simp add: scan_inv_def)
  show ?thesis
  proof (cases "pool s ! i")
    case Receiving
    show ?thesis
    proof (cases "ch_paths s")
      case Nil
      show ?thesis
      proof (cases "paths_closed s")
        case True
        with i Receiving Nil show ?thesis using scan_step.worker_exit by blast
      next
        case False
        with inv Nil show ?thesis by (intro walkers_progress)
      qed
    next
      case (Cons p ps)
      with i Receiving show ?thesis using scan_step.worker_receive by blast
    qed
  next
    case (SendingErr e)
    show ?thesis
    proof (cases "ch_errs s")
      case Nil
      with w0 have "length (ch_errs s) < workers" by simp
      with i SendingErr open_errs show ?thesis using scan_step.worker_send_err by blast
    next
      case (Cons e' es)
      moreover have "\<not> drainer_done s"
        using inv open_errs by (auto simp: scan_inv_def)
      ultimately show ?thesis using scan_step.drain by blast
    qed
  next
    case (SendingMatch m)
    have "length (ch_matches s) < workers * 2" using empty w0 by simp
    with i SendingMatch open_matches show ?thesis using scan_step.worker_send_match by blast
  next
    case Exited
    with w show ?thesis by simp
  qed
qed

lemma scan_progress:
  assumes inv: "scan_inv env workers c roots s" and nf: "\<not> finished s"
  shows "\<exists>s'. scan_step env workers c s s'"
proof (cases "collector_done s")
  case False
  show ?thesis
  proof (cases "ch_matches s")
    case Nil
    show ?thesis
    proof (cases "matches_closed s")
      case True
      with Nil False show ?thesis using scan_step.collect_done by blast
    next
      case mc: False
      with inv Nil show ?thesis by (intro pool_progress)
    qed
  next
    case (Cons m ms)
    with False show ?thesis using scan_step.collect by blast
  qed
next
  case cd: True
  then have mc: "matches_closed s" using inv by (simp add: scan_inv_def)
  show ?thesis
  proof (cases "drainer_done s")
    case False
    show ?thesis
    proof (cases "ch_errs s")
      case Nil
      show ?thesis
      proof (cases "errs_closed s")
        case True
        with Nil False show ?thesis using scan_step.drain_done by blast
      next
        case False
        with mc show ?thesis using scan_step.close_errs_return by blast
      qed
    next
      case (Cons e es)
      with False show ?thesis using scan_step.drain by blast
    qed
  next
    case True
    then have "errs_closed s" using inv by (simp add: scan_inv_def)
    then have "returned s \<noteq> None" using inv by (simp add: scan_inv_def)
    with cd True nf show ?thesis by (simp add: finished_def)
  qed
qed

text \<open>Every state of a run can reach a finished state, and does so whatever steps are
  taken: the measure bounds the number of steps.\<close>

lemma scan_finishes_from:
  assumes "scan_inv env workers c roots s" and "reachable env workers c roots s"
  shows "\<exists>s'. reachable env workers c roots s' \<and> finished s'"
  using assms
proof (induction "scan_measure s" arbitrary: s rule: less_induct)
  case less
  show ?case
  proof (cases "finished s")
    case True
    with less.prems show ?thesis by blast
  next
    case False
    then obtain s1 where step: "scan_step env workers c s s1"
      using scan_progress [OF less.prems(1)] by blast
    have "scan_measure s1 < scan_measure s" using step by (rule scan_step_measure)
    moreover have "scan_inv env workers c roots s1"
      using step less.prems(1) by (rule scan_step_inv)
    moreover have "reachable env workers c roots s1"
      using less.prems(2) step by (rule reachable_step)
    ultimately show ?thesis by (rule less.hyps)
  qed
qed

lemma scan_finishes:
  assumes "0 < workers"
  shows "\<exists>s. reachable env workers c roots s \<and> finished s"
  using scan_finishes_from [OF scan_inv_init [OF assms] reachable_init] .

lemma finished_no_step:
  assumes "scan_inv env workers c roots s" and "finished s"
  shows "\<not> scan_step env workers c s s'"
proof
  assume "scan_step env workers c s s'"
  then show False
    using assms
  proof (cases rule: scan_step.cases)
    case (walker_send i p ps err)
    then show ?thesis using inv_busy_walker(5) [OF assms(1), of i] assms(2) by (simp add: finished_def)
  next
    case (walker_done i err)
    then show ?thesis using inv_busy_walker(5) [OF assms(1), of i] assms(2) by (simp add: finished_def)
  next
    case close_paths
    then show ?thesis using inv_matches_closed(2) [OF assms(1)] assms by (simp add: finished_def scan_inv_def)
  next
    case (worker_receive i p ps)
    then show ?thesis using inv_busy_worker(3) [OF assms(1), of i] assms(2) by (simp add: finished_def)
  next
    case (worker_exit i)
    then show ?thesis using inv_busy_worker(3) [OF assms(1), of i] assms(2) by (simp add: finished_def)
  next
    case (worker_send_err i e)
    then show ?thesis using inv_busy_worker(3) [OF assms(1), of i] assms(2) by (simp add: finished_def)
  next
    case (worker_send_match i m)
    then show ?thesis using inv_busy_worker(3) [OF assms(1), of i] assms(2) by (simp add: finished_def)
  next
    case close_matches
    then show ?thesis using assms by (simp add: finished_def scan_inv_def)
  next
    case close_errs_return
    then show ?thesis using assms by (simp add: finished_def scan_inv_def)
  next
    case (collect m ms)
    then show ?thesis using assms by (simp add: finished_def scan_inv_def)
  next
    case collect_done
    then show ?thesis using assms by (simp add: finished_def scan_inv_def)
  next
    case (drain e es)
    then show ?thesis using assms by (simp add: finished_def scan_inv_def)
  next
    case drain_done
    then show ?thesis using assms by (simp add: finished_def scan_inv_def)
  qed
qed

subsection \<open>The state a run ends in\<close>

lemma mset_concat_map_cong:
  assumes "mset xs = mset ys"
  shows "mset (concat (map f xs)) = mset (concat (map f ys))"
proof -
  have "mset (concat (map f zs)) = (\<Sum>x \<in># mset zs. mset (f x))" for zs
    by (induction zs) simp_all
  with assms show ?thesis by simp
qed

lemma all_done_nothing_left:
  assumes "\<forall>w \<in> set ws. w = WalkDone"
  shows "concat (map walker_paths ws) = []" and "concat (map walker_errs ws) = []"
  using assms by (induction ws) simp_all

lemma all_Exited_nothing_left:
  assumes "\<forall>w \<in> set ws. w = Exited"
  shows "concat (map worker_match ws) = []" and "concat (map worker_err ws) = []"
  using assms by (induction ws) simp_all

lemma finished_state:
  assumes inv: "scan_inv env workers c roots s" and fin: "finished s"
  shows "mset (probed s) = mset (walked env roots)"
    and "mset (out s) = mset (concat (map (expected_match env) (walked env roots)))"
    and "mset (errs_received s) = mset (concat (map (expected_warning env) (walked env roots)))"
    and "returned s = Some (walkErr s)"
    and "mset (opt_leaves (walkErr s)) = mset (walk_errors env roots)"
    and "stderr s = (if c = Main then errs_received s else [])"
    and "ch_paths s = []" and "ch_matches s = []" and "ch_errs s = []"
proof -
  have cd: "collector_done s" and dd: "drainer_done s"
    using fin by (simp_all add: finished_def)
  have mc: "matches_closed s" and cm: "ch_matches s = []"
    using inv cd by (simp_all add: scan_inv_def)
  have ec: "errs_closed s" and ce: "ch_errs s = []"
    using inv dd by (simp_all add: scan_inv_def)
  note closed = inv_matches_closed [OF inv mc]
  have idle: "concat (map worker_match (pool s)) = []" "concat (map worker_err (pool s)) = []"
    using all_Exited_nothing_left [OF closed(1)] by simp_all
  have done_walk: "concat (map walker_paths (walkers s)) = []" "concat (map walker_errs (walkers s)) = []"
    using all_done_nothing_left [OF closed(4)] by simp_all
  show cp: "ch_paths s = []" by (rule closed(3))
  show "ch_matches s = []" by (rule cm)
  show "ch_errs s = []" by (rule ce)
  show p: "mset (probed s) = mset (walked env roots)"
    using inv done_walk cp by (simp add: scan_inv_def)
  have "mset (out s) = mset (concat (map (expected_match env) (probed s)))"
    using inv idle cm by (simp add: scan_inv_def)
  then show "mset (out s) = mset (concat (map (expected_match env) (walked env roots)))"
    using mset_concat_map_cong [OF p] by simp
  have "mset (errs_received s) = mset (concat (map (expected_warning env) (probed s)))"
    using inv idle ce by (simp add: scan_inv_def)
  then show "mset (errs_received s) = mset (concat (map (expected_warning env) (walked env roots)))"
    using mset_concat_map_cong [OF p] by simp
  show "returned s = Some (walkErr s)"
    using inv ec by (simp add: scan_inv_def)
  show "mset (opt_leaves (walkErr s)) = mset (walk_errors env roots)"
    using inv done_walk by (simp add: scan_inv_def)
  show "stderr s = (if c = Main then errs_received s else [])"
    using inv by (simp add: scan_inv_def)
qed

text \<open>No worker is blocked on a closed channel, and no walker either: the sends of the
  model never meet the panic of a send on a closed channel.\<close>

lemma no_send_on_closed:
  assumes inv: "scan_inv env workers c roots s"
  shows "i < length (walkers s) \<Longrightarrow> walkers s ! i = Walking ps err \<Longrightarrow> \<not> paths_closed s"
    and "j < length (pool s) \<Longrightarrow> pool s ! j = SendingMatch m \<Longrightarrow> \<not> matches_closed s"
    and "j < length (pool s) \<Longrightarrow> pool s ! j = SendingErr e \<Longrightarrow> \<not> errs_closed s"
  using inv_busy_walker(1) [OF inv, of i] inv_busy_worker(1,2) [OF inv, of j] by simp_all

subsection \<open>The walk of a tree\<close>

lemma walk_agrees_Nil: "walk_agrees res fs [] = (res = (fs, None))"
  by (simp add: walk_agrees_def)

lemma walk_agrees_Cons:
  "walk_agrees res fs (e # es) = (snd res = Some (PathError e) \<and> (\<exists>rest. fs = fst res @ rest))"
  by (simp add: walk_agrees_def)

lemma walk_agrees_append:
  assumes "walk_agrees r1 f1 e1" and "walk_agrees r2 f2 e2"
  shows "walk_agrees (case r1 of (out1, Some err) \<Rightarrow> (out1, Some err)
                      | (out1, None) \<Rightarrow> (case r2 of (out2, err) \<Rightarrow> (out1 @ out2, err)))
           (f1 @ f2) (e1 @ e2)"
proof (cases e1)
  case Nil
  with assms(1) have r1: "r1 = (f1, None)" by (simp add: walk_agrees_Nil)
  show ?thesis
  proof (cases e2)
    case e2: Nil
    with assms(2) have "r2 = (f2, None)" by (simp add: walk_agrees_Nil)
    with r1 Nil e2 show ?thesis by (simp add: walk_agrees_Nil)
  next
    case (Cons e es)
    with assms(2) obtain rest where "snd r2 = Some (PathError e)" and "f2 = fst r2 @ rest"
      by (auto simp: walk_agrees_Cons)
    with r1 Nil Cons show ?thesis
      by (cases r2) (auto simp: walk_agrees_Cons)
  qed
next
  case (Cons e es)
  with assms(1) obtain rest where "snd r1 = Some (PathError e)" and "f1 = fst r1 @ rest"
    by (auto simp: walk_agrees_Cons)
  with Cons show ?thesis
    by (cases r1) (auto simp: walk_agrees_Cons)
qed

lemma walkDir_agrees:
  "fn = walkFn \<Longrightarrow> walk_agrees (walkDir env fn path d) (regular_paths env path d) (hard_errors d)"
  "fn = walkFn \<Longrightarrow>
     walk_agrees (walkDir_entries env fn path dirs) (regular_paths_entries env path dirs)
       (hard_errors_entries dirs)"
proof (induction env fn path d and env fn path dirs rule: walkDir_walkDir_entries.induct)
  case (1 env fn path)
  then show ?case by (simp add: walkFn_def walk_agrees_Nil)
next
  case (2 env fn path)
  then show ?case by (simp add: walkFn_def walk_agrees_Nil)
next
  case (3 env fn path dirs rerr)
  have first: "fn path (Some (Dir dirs rerr)) None = ([], None)"
    using 3(2) by (simp add: walkFn_def)
  show ?case
  proof (cases rerr)
    case None
    have "walk_agrees (walkDir_entries env fn path dirs) (regular_paths_entries env path dirs)
        (hard_errors_entries dirs)"
      using 3 first None by simp
    then show ?thesis
      using first None by (simp add: split_def)
  next
    case (Some e)
    show ?thesis
    proof (cases "is_hard e")
      case True
      then show ?thesis
        using first Some 3(2) by (simp add: walkFn_def walk_agrees_Cons is_hard_def)
    next
      case False
      then have second: "fn path (Some (Dir dirs rerr)) (Some (PathError e)) = ([], None)"
        using 3(2) by (simp add: walkFn_def is_hard_def)
      have "walk_agrees (walkDir_entries env fn path dirs) (regular_paths_entries env path dirs)
          (hard_errors_entries dirs)"
        using 3 first Some second by simp
      then show ?thesis
        using first Some second False by (simp add: split_def)
    qed
  qed
next
  case (4 env fn path)
  then show ?case by (simp add: walk_agrees_Nil)
next
  case (5 env fn path name d1 rest)
  have a: "walk_agrees (walkDir env fn (filepath_Join env path name) d1)
      (regular_paths env (filepath_Join env path name) d1) (hard_errors d1)"
    using 5 by simp
  have noskip: "snd (walkDir env fn (filepath_Join env path name) d1) \<noteq> Some SkipDir"
    using a by (cases "hard_errors d1") (auto simp: walk_agrees_Nil walk_agrees_Cons)
  show ?case
  proof (cases "walkDir env fn (filepath_Join env path name) d1")
    case (Pair out1 err1)
    show ?thesis
    proof (cases err1)
      case None
      have b: "walk_agrees (walkDir_entries env fn path rest) (regular_paths_entries env path rest)
          (hard_errors_entries rest)"
        using 5 Pair None by simp
      show ?thesis
        using walk_agrees_append [OF a b] Pair None by (simp add: split_def)
    next
      case (Some err)
      have b: "walk_agrees ([], None) [] []" by (simp add: walk_agrees_Nil)
      from a Pair Some obtain e es where he: "hard_errors d1 = e # es"
        by (cases "hard_errors d1") (auto simp: walk_agrees_Nil)
      with a Pair Some have "err = PathError e" and "\<exists>r. regular_paths env (filepath_Join env path name) d1 = out1 @ r"
        by (auto simp: walk_agrees_Cons)
      then show ?thesis
        using Pair Some he by (auto simp: walk_agrees_Cons)
    qed
  qed
qed

subsection \<open>Schedules\<close>

lemma do_action_step:
  assumes "do_action env workers c a s = Some s'"
  shows "scan_step env workers c s s'"
proof (cases a)
  case (WalkerSend i)
  with assms show ?thesis
    by (auto split: if_splits walker.splits list.splits intro: scan_step.walker_send)
next
  case (WalkerDone i)
  with assms show ?thesis
    by (auto split: if_splits walker.splits list.splits intro: scan_step.walker_done)
next
  case ClosePaths
  with assms show ?thesis
    by (auto simp: list_all_iff split: if_splits intro: scan_step.close_paths)
next
  case (WorkerReceive i)
  with assms show ?thesis
    by (auto split: if_splits list.splits intro: scan_step.worker_receive)
next
  case (WorkerExit i)
  with assms show ?thesis
    by (auto split: if_splits intro: scan_step.worker_exit)
next
  case (WorkerSendErr i)
  with assms show ?thesis
    by (auto split: if_splits worker.splits intro: scan_step.worker_send_err)
next
  case (WorkerSendMatch i)
  with assms show ?thesis
    by (auto split: if_splits worker.splits intro: scan_step.worker_send_match)
next
  case CloseMatches
  with assms show ?thesis
    by (auto simp: list_all_iff split: if_splits intro: scan_step.close_matches)
next
  case CloseErrsReturn
  with assms show ?thesis
    by (auto split: if_splits intro: scan_step.close_errs_return)
next
  case Collect
  with assms show ?thesis
    by (auto split: if_splits list.splits intro: scan_step.collect)
next
  case CollectDone
  with assms show ?thesis
    by (auto split: if_splits intro: scan_step.collect_done)
next
  case Drain
  with assms show ?thesis
    by (auto split: if_splits list.splits intro: scan_step.drain)
next
  case DrainDone
  with assms show ?thesis
    by (auto split: if_splits intro: scan_step.drain_done)
qed

lemma scan_step_action:
  assumes "scan_step env workers c s s'"
  shows "\<exists>a. do_action env workers c a s = Some s'"
  using assms
proof (cases rule: scan_step.cases)
  case (walker_send i p ps err)
  then have "do_action env workers c (WalkerSend i) s = Some s'" by simp
  then show ?thesis ..
next
  case (walker_done i err)
  then have "do_action env workers c (WalkerDone i) s = Some s'" by simp
  then show ?thesis ..
next
  case close_paths
  then have "do_action env workers c ClosePaths s = Some s'" by (simp add: list_all_iff)
  then show ?thesis ..
next
  case (worker_receive i p ps)
  then have "do_action env workers c (WorkerReceive i) s = Some s'" by simp
  then show ?thesis ..
next
  case (worker_exit i)
  then have "do_action env workers c (WorkerExit i) s = Some s'" by simp
  then show ?thesis ..
next
  case (worker_send_err i e)
  then have "do_action env workers c (WorkerSendErr i) s = Some s'" by simp
  then show ?thesis ..
next
  case (worker_send_match i m)
  then have "do_action env workers c (WorkerSendMatch i) s = Some s'" by simp
  then show ?thesis ..
next
  case close_matches
  then have "do_action env workers c CloseMatches s = Some s'" by (simp add: list_all_iff)
  then show ?thesis ..
next
  case close_errs_return
  then have "do_action env workers c CloseErrsReturn s = Some s'" by simp
  then show ?thesis ..
next
  case (collect m ms)
  then have "do_action env workers c Collect s = Some s'" by simp
  then show ?thesis ..
next
  case collect_done
  then have "do_action env workers c CollectDone s = Some s'" by simp
  then show ?thesis ..
next
  case (drain e es)
  then have "do_action env workers c Drain s = Some s'" by simp
  then show ?thesis ..
next
  case drain_done
  then have "do_action env workers c DrainDone s = Some s'" by simp
  then show ?thesis ..
qed

lemma run_schedule_reachable:
  assumes "run_schedule env workers c as s = Some s'" and "reachable env workers c roots s"
  shows "reachable env workers c roots s'"
  using assms
proof (induction as arbitrary: s)
  case Nil
  then show ?case by simp
next
  case (Cons a as)
  then obtain s1 where a: "do_action env workers c a s = Some s1"
    and rest: "run_schedule env workers c as s1 = Some s'"
    by (auto split: option.splits)
  have "reachable env workers c roots s1"
    using Cons.prems(2) do_action_step [OF a] by (rule reachable_step)
  with rest show ?case by (rule Cons.IH)
qed

lemma solo_run:
  "run_schedule demo_env 2 FindSQLiteFiles solo_schedule (scan_init demo_env 2 [''/r''])
   = Some solo_final"
  by code_simp

lemma nested_run:
  "run_schedule nested_env 1 FindSQLiteFiles nested_schedule (scan_init nested_env 1 nested_roots)
   = Some nested_final"
  by code_simp

lemma demo_run_1:
  "run_schedule demo_env 1 FindSQLiteFiles demo_schedule_1 (scan_init demo_env 1 demo_roots)
   = Some demo_final_1"
  by code_simp

lemma demo_run_2:
  "run_schedule demo_env 2 FindSQLiteFiles demo_schedule_2 (scan_init demo_env 2 demo_roots)
   = Some demo_final_2"
  by code_simp

lemma demo_run_main:
  "run_schedule demo_env 2 Main demo_schedule_2 (scan_init demo_env 2 demo_roots)
   = Some demo_final_main"
  by code_simp

lemma walk_agrees_no_skip:
  assumes "walk_agrees res fs errs"
  shows "snd res \<noteq> Some SkipDir" and "snd res \<noteq> Some SkipAll"
  using assms by (cases errs; auto simp: walk_agrees_Nil walk_agrees_Cons)+

lemma filepath_WalkDir_agrees:
  "walk_agrees (filepath_WalkDir env root walkFn) (root_regular_paths env root) (root_hard_errors env root)"
proof (cases "os_Lstat env root")
  case (Inl e)
  then show ?thesis
    by (simp add: filepath_WalkDir_def root_regular_paths_def root_hard_errors_def walkFn_def
          is_hard_def walk_agrees_Nil walk_agrees_Cons)
next
  case (Inr d)
  have a: "walk_agrees (walkDir env walkFn root d) (regular_paths env root d) (hard_errors d)"
    by (rule walkDir_agrees(1)) simp
  have "filepath_WalkDir env root walkFn = walkDir env walkFn root d"
    using walk_agrees_no_skip [OF a] Inr
    by (cases "walkDir env walkFn root d") (simp add: filepath_WalkDir_def)
  with a Inr show ?thesis
    by (simp add: root_regular_paths_def root_hard_errors_def)
qed

lemma walk_without_hard_errors:
  assumes "root_hard_errors env root = []"
  shows "filepath_WalkDir env root walkFn = (root_regular_paths env root, None)"
  using filepath_WalkDir_agrees [of env root] assms by (simp add: walk_agrees_Nil)

lemma walked_without_hard_errors:
  assumes "\<forall>r \<in> set roots. root_hard_errors env r = []"
  shows "walked env roots = concat (map (root_regular_paths env) roots)"
  using assms by (induction roots) (simp_all add: walked_def walk_without_hard_errors)


lemma expected_match_Path:
  "m \<in> set (expected_match env p) \<Longrightarrow> expected_match env p = [m] \<and> Path m = p"
  by (auto simp: expected_match_def checkSQLiteMagic_def
           split: prod.splits option.splits sum.splits if_splits)

lemma expected_match_paths:
  "mset (map Path (concat (map (expected_match env) ps))) \<subseteq># mset ps"
proof (induction ps)
  case Nil
  show ?case by simp
next
  case (Cons p ps)
  have "map Path (expected_match env p) = [] \<or> map Path (expected_match env p) = [p]"
    using expected_match_Path [of _ env p] by (cases "expected_match env p") auto
  then have "mset (map Path (expected_match env p)) \<subseteq># {#p#}" by auto
  with Cons show ?case
    by (simp add: subset_mset.add_mono [of _ "{#p#}", simplified])
qed

lemma expected_warning_shape:
  "e \<in> set (expected_warning env p) \<Longrightarrow>
   \<not> is_ErrPermission e \<and> (\<exists>err. e = Errorf p err \<and> snd (snd (checkSQLiteMagic env p)) = Some err)"
proof -
  assume e: "e \<in> set (expected_warning env p)"
  obtain res ok err where c: "checkSQLiteMagic env p = (res, ok, err)"
    by (cases "checkSQLiteMagic env p") auto
  with e show ?thesis
    by (cases err) (auto simp: expected_warning_def split: if_splits)
qed

subsection \<open>What a scan probes and reports\<close>

lemma demo_reachable_1: "reachable demo_env 1 FindSQLiteFiles demo_roots demo_final_1"
  using demo_run_1 reachable_init by (rule run_schedule_reachable)

lemma demo_reachable_2: "reachable demo_env 2 FindSQLiteFiles demo_roots demo_final_2"
  using demo_run_2 reachable_init by (rule run_schedule_reachable)

lemma demo_reachable_main: "reachable demo_env 2 Main demo_roots demo_final_main"
  using demo_run_main reachable_init by (rule run_schedule_reachable)

lemma solo_reachable: "reachable demo_env 2 FindSQLiteFiles [''/r''] solo_final"
  using solo_run reachable_init by (rule run_schedule_reachable)

lemma nested_reachable: "reachable nested_env 1 FindSQLiteFiles nested_roots nested_final"
  using nested_run reachable_init by (rule run_schedule_reachable)

lemma demo_finished:
  "finished demo_final_1" "finished demo_final_2" "finished demo_final_main" "finished solo_final"
  "finished nested_final"
  by (simp_all add: finished_def demo_final_1_def demo_final_2_def demo_final_main_def
        solo_final_def nested_final_def)

lemma distinct_sub_mset:
  assumes "mset xs \<subseteq># mset ys" and "distinct ys"
  shows "distinct xs"
proof -
  have le: "count (mset xs) a \<le> 1" for a
  proof -
    have "count (mset ys) a \<le> 1"
      using assms(2) by (simp add: distinct_count_atmost_1)
    with mset_subset_eq_count [OF assms(1), of a] show ?thesis by simp
  qed
  have "count (mset xs) a = (if a \<in> set xs then 1 else 0)" for a
  proof (cases "a \<in> set xs")
    case True
    then have "count (mset xs) a \<noteq> 0" by simp
    with le [of a] have "count (mset xs) a = 1" by linarith
    with True show ?thesis by simp
  next
    case False
    then show ?thesis by simp
  qed
  then show ?thesis by (simp add: distinct_count_atmost_1)
qed

text \<open>
  C2, as stated, fails: every regular file reachable from the resolved roots is to be
  enqueued and probed exactly once, and each probed path is to give at most one record.
  The roots \<open>/a\<close> and \<open>/a/b\<close> are both kept by \<open>resolveRoots\<close>; the file \<open>/a/b/x.db\<close> is
  reachable from both, and the run below probes it twice and collects two records of it.
\<close>

theorem scan_nested_roots_counterexample:
  "resolveRoots nested_env nested_roots = nested_roots \<and>
   reachable nested_env 1 FindSQLiteFiles nested_roots nested_final \<and>
   finished nested_final \<and>
   count (mset (probed nested_final)) ''/a/b/x.db'' = 2 \<and>
   out nested_final = [\<lparr>Path = ''/a/b/x.db'', Size = 31\<rparr>, \<lparr>Path = ''/a/b/x.db'', Size = 31\<rparr>]"
proof -
  have "resolveRoots nested_env nested_roots = nested_roots"
    by (simp add: resolveRoots_def nested_env_def nested_roots_def)
  moreover have "count (mset (probed nested_final)) ''/a/b/x.db'' = 2"
    by (simp add: nested_final_def)
  moreover have "out nested_final = [\<lparr>Path = ''/a/b/x.db'', Size = 31\<rparr>, \<lparr>Path = ''/a/b/x.db'', Size = 31\<rparr>]"
    by (simp add: nested_final_def)
  ultimately show ?thesis
    using nested_reachable demo_finished(5) by simp
qed

text \<open>
  C2, amended: with at least one worker, in every finished scan each path that the walks
  enqueued has been probed exactly once (the probed paths are, as a multiset, the
  enqueued paths), and each probe has given at most one record, under the probed path.
  The walk of a root that meets no error other than permission-denied enqueues each
  regular file of the tree of that root exactly once. So when no root meets such an error
  and no path lies in the trees of two roots, every regular file reachable from the roots
  is probed exactly once and no two records have the same path.
\<close>

theorem scan_probes_each_enqueued_path_once:
  assumes "0 < workers" and "reachable env workers c roots s" and "finished s"
  shows "mset (probed s) = mset (walked env roots) \<and>
         mset (map Path (out s)) \<subseteq># mset (probed s) \<and>
         (\<forall>r \<in> set roots. root_hard_errors env r = [] \<longrightarrow>
            fst (filepath_WalkDir env r walkFn) = root_regular_paths env r) \<and>
         ((\<forall>r \<in> set roots. root_hard_errors env r = []) \<and>
          distinct (concat (map (root_regular_paths env) roots)) \<longrightarrow>
            (\<forall>p \<in> set (concat (map (root_regular_paths env) roots)). count (mset (probed s)) p = 1) \<and>
            set (probed s) = set (concat (map (root_regular_paths env) roots)) \<and>
            distinct (map Path (out s)))"
proof -
  have inv: "scan_inv env workers c roots s"
    using assms(2,1) by (rule reachable_inv)
  note fin = finished_state [OF inv assms(3)]
  have p: "mset (probed s) = mset (walked env roots)" by (rule fin(1))
  have "mset (map Path (out s)) = mset (map Path (concat (map (expected_match env) (walked env roots))))"
    using fin(2) by (metis mset_map)
  also have "\<dots> \<subseteq># mset (walked env roots)" by (rule expected_match_paths)
  finally have o: "mset (map Path (out s)) \<subseteq># mset (probed s)" using p by simp
  have w: "\<forall>r \<in> set roots. root_hard_errors env r = [] \<longrightarrow>
      fst (filepath_WalkDir env r walkFn) = root_regular_paths env r"
    by (simp add: walk_without_hard_errors)
  have d: "(\<forall>p \<in> set (concat (map (root_regular_paths env) roots)). count (mset (probed s)) p = 1) \<and>
      set (probed s) = set (concat (map (root_regular_paths env) roots)) \<and>
      distinct (map Path (out s))"
    if clean: "\<forall>r \<in> set roots. root_hard_errors env r = []"
      and dis: "distinct (concat (map (root_regular_paths env) roots))"
  proof -
    have eq: "mset (probed s) = mset (concat (map (root_regular_paths env) roots))"
      using p walked_without_hard_errors [OF clean] by simp
    then have dp: "distinct (probed s)"
      using dis by (metis mset_eq_imp_distinct_iff)
    have "set (probed s) = set (concat (map (root_regular_paths env) roots))"
      using eq by (rule mset_eq_setD)
    moreover have "\<forall>p \<in> set (concat (map (root_regular_paths env) roots)). count (mset (probed s)) p = 1"
      unfolding eq using dis by (simp add: distinct_count_atmost_1)
    moreover have "distinct (map Path (out s))"
      using o dp by (rule distinct_sub_mset)
    ultimately show ?thesis by blast
  qed
  show ?thesis using p o w d by blast
qed

theorem scan_probes_each_enqueued_path_once_witness:
  "count (mset (probed solo_final)) ''/r/b.db'' = 1 \<and>
   set (probed solo_final) = {''/r/b.db'', ''/r/c.bin'', ''/r/d.db'', ''/r/e.db''} \<and>
   distinct (map Path (out solo_final))"
proof -
  have w: "(0::nat) < 2" by simp
  have clean: "\<forall>r \<in> set [''/r'']. root_hard_errors demo_env r = []"
    by (simp add: root_hard_errors_def demo_env_def demo_tree_def is_hard_def)
  have paths: "concat (map (root_regular_paths demo_env) [''/r''])
      = [''/r/b.db'', ''/r/c.bin'', ''/r/d.db'', ''/r/e.db'']"
    by (simp add: root_regular_paths_def demo_env_def demo_tree_def)
  have dis: "distinct (concat (map (root_regular_paths demo_env) [''/r'']))"
    unfolding paths by simp
  note once = scan_probes_each_enqueued_path_once [OF w solo_reachable demo_finished(4)]
  from once clean dis
  have "(\<forall>p \<in> set (concat (map (root_regular_paths demo_env) [''/r''])).
            count (mset (probed solo_final)) p = 1) \<and>
        set (probed solo_final) = set (concat (map (root_regular_paths demo_env) [''/r''])) \<and>
        distinct (map Path (out solo_final))"
    by blast
  then show ?thesis unfolding paths by simp
qed









text \<open>
  C4: for the path a worker probes, a permission-denied error sends nothing; another
  error is sent on \<open>errs\<close>, wrapped with the path; a match is sent on \<open>matches\<close>; a
  no-match sends nothing. In a run (with at least one worker) no error on \<open>errs\<close> or taken
  from it is permission-denied, and each is the wrapped error of a probed path. No probe
  error stops the scan: a state that is not finished has a step, no run goes on for ever,
  and in a finished state every enqueued path has been probed, every expected warning
  received and every expected record collected, once each.
\<close>

theorem worker_routes_probe_outcomes:
  "(checkSQLiteMagic env p = (res, ok, Some err) \<and> is_ErrPermission err \<longrightarrow>
      worker_after env p = Receiving) \<and>
   (checkSQLiteMagic env p = (res, ok, Some err) \<and> \<not> is_ErrPermission err \<longrightarrow>
      worker_after env p = SendingErr (Errorf p err)) \<and>
   (checkSQLiteMagic env p = (res, True, None) \<longrightarrow> worker_after env p = SendingMatch res) \<and>
   (checkSQLiteMagic env p = (res, False, None) \<longrightarrow> worker_after env p = Receiving) \<and>
   (0 < workers \<and> reachable env workers c roots s \<longrightarrow>
      (\<forall>e \<in> set (ch_errs s) \<union> set (errs_received s).
         \<not> is_ErrPermission e \<and>
         (\<exists>q err. q \<in> set (probed s) \<and> e = Errorf q err
            \<and> snd (snd (checkSQLiteMagic env q)) = Some err)) \<and>
      (\<not> finished s \<longrightarrow> (\<exists>s'. scan_step env workers c s s'))) \<and>
   wf {(s', s). scan_step env workers c s s'} \<and>
   (0 < workers \<and> reachable env workers c roots s \<and> finished s \<longrightarrow>
      mset (probed s) = mset (walked env roots) \<and>
      mset (errs_received s) = mset (concat (map (expected_warning env) (walked env roots))) \<and>
      mset (out s) = mset (concat (map (expected_match env) (walked env roots))))"
proof -
  have route:
    "(checkSQLiteMagic env p = (res, ok, Some err) \<and> is_ErrPermission err \<longrightarrow>
        worker_after env p = Receiving) \<and>
     (checkSQLiteMagic env p = (res, ok, Some err) \<and> \<not> is_ErrPermission err \<longrightarrow>
        worker_after env p = SendingErr (Errorf p err)) \<and>
     (checkSQLiteMagic env p = (res, True, None) \<longrightarrow> worker_after env p = SendingMatch res) \<and>
     (checkSQLiteMagic env p = (res, False, None) \<longrightarrow> worker_after env p = Receiving)"
    by (simp add: worker_after_def)
  have run: "(\<forall>e \<in> set (ch_errs s) \<union> set (errs_received s).
         \<not> is_ErrPermission e \<and>
         (\<exists>q err. q \<in> set (probed s) \<and> e = Errorf q err
            \<and> snd (snd (checkSQLiteMagic env q)) = Some err)) \<and>
      (\<not> finished s \<longrightarrow> (\<exists>s'. scan_step env workers c s s'))"
    if "0 < workers" and "reachable env workers c roots s"
  proof -
    have inv: "scan_inv env workers c roots s"
      using that(2,1) by (rule reachable_inv)
    have E: "mset (errs_received s) + mset (ch_errs s) + mset (concat (map worker_err (pool s)))
        = mset (concat (map (expected_warning env) (probed s)))"
      using inv by (simp add: scan_inv_def)
    have "\<not> is_ErrPermission e \<and>
         (\<exists>q err. q \<in> set (probed s) \<and> e = Errorf q err
            \<and> snd (snd (checkSQLiteMagic env q)) = Some err)"
      if "e \<in> set (ch_errs s) \<union> set (errs_received s)" for e
    proof -
      from that have "e \<in># mset (errs_received s) + mset (ch_errs s) + mset (concat (map worker_err (pool s)))"
        by auto
      then have "e \<in># mset (concat (map (expected_warning env) (probed s)))"
        unfolding E .
      then obtain q where "q \<in> set (probed s)" and "e \<in> set (expected_warning env q)"
        by auto
      then show ?thesis using expected_warning_shape [of e env q] by blast
    qed
    then show ?thesis using scan_progress [OF inv] by blast
  qed
  have ended: "mset (probed s) = mset (walked env roots) \<and>
      mset (errs_received s) = mset (concat (map (expected_warning env) (walked env roots))) \<and>
      mset (out s) = mset (concat (map (expected_match env) (walked env roots)))"
    if "0 < workers" and "reachable env workers c roots s" and "finished s"
  proof -
    have inv: "scan_inv env workers c roots s"
      using that(2,1) by (rule reachable_inv)
    show ?thesis using finished_state(1,2,3) [OF inv that(3)] by simp
  qed
  show ?thesis using route run ended scan_steps_wellfounded [of env workers c] by blast
qed

theorem worker_routes_probe_outcomes_witness:
  "worker_after demo_env ''/r/d.db'' = Receiving \<and>
   worker_after demo_env ''/r/c.bin'' = SendingErr (Errorf ''/r/c.bin'' (PathError EIO)) \<and>
   worker_after demo_env ''/r/b.db'' = SendingMatch \<lparr>Path = ''/r/b.db'', Size = 31\<rparr> \<and>
   mset (errs_received demo_final_1) = mset (concat (map (expected_warning demo_env) (walked demo_env demo_roots))) \<and>
   errs_received demo_final_1 = [Errorf ''/r/c.bin'' (PathError EIO)]"
proof -
  have w: "(0::nat) < 1" by simp
  have d: "checkSQLiteMagic demo_env ''/r/d.db'' = (matchResult_zero, False, Some (PathError EACCES))"
    by (simp add: checkSQLiteMagic_def os_Open_def demo_env_def locked_file_def)
  have c: "checkSQLiteMagic demo_env ''/r/c.bin'' = (matchResult_zero, False, Some (PathError EIO))"
    by (simp add: checkSQLiteMagic_def os_Open_def demo_env_def broken_file_def io_ReadFull_def
          length_sqliteMagic)
  have b: "checkSQLiteMagic demo_env ''/r/b.db'' = (\<lparr>Path = ''/r/b.db'', Size = 31\<rparr>, True, None)"
    by (simp add: checkSQLiteMagic_def os_Open_def demo_env_def good_file_def io_ReadFull_def
          file_Stat_def length_sqliteMagic)
  note td = worker_routes_probe_outcomes [of demo_env "''/r/d.db''" matchResult_zero False "PathError EACCES" 1 FindSQLiteFiles demo_roots demo_final_1]
  note tc = worker_routes_probe_outcomes [of demo_env "''/r/c.bin''" matchResult_zero False "PathError EIO" 1 FindSQLiteFiles demo_roots demo_final_1]
  note tb = worker_routes_probe_outcomes [of demo_env "''/r/b.db''" "\<lparr>Path = ''/r/b.db'', Size = 31\<rparr>" True "PathError EIO" 1 FindSQLiteFiles demo_roots demo_final_1]
  have 1: "worker_after demo_env ''/r/d.db'' = Receiving"
    using td [THEN conjunct1] d by simp
  have 2: "worker_after demo_env ''/r/c.bin'' = SendingErr (Errorf ''/r/c.bin'' (PathError EIO))"
    using tc [THEN conjunct2, THEN conjunct1] c by simp
  have 3: "worker_after demo_env ''/r/b.db'' = SendingMatch \<lparr>Path = ''/r/b.db'', Size = 31\<rparr>"
    using tb [THEN conjunct2, THEN conjunct2, THEN conjunct1] b by simp
  have 4: "mset (errs_received demo_final_1)
      = mset (concat (map (expected_warning demo_env) (walked demo_env demo_roots)))"
    using td [THEN conjunct2, THEN conjunct2, THEN conjunct2, THEN conjunct2, THEN conjunct2,
        THEN conjunct2]
      w demo_reachable_1 demo_finished(1) by blast
  have 5: "errs_received demo_final_1 = [Errorf ''/r/c.bin'' (PathError EIO)]"
    by (simp add: demo_final_1_def)
  show ?thesis using 1 2 3 4 5 by blast
qed

text \<open>
  C6: for the same roots and file tree, a finished scan with \<open>n \<ge> 1\<close> workers and a
  finished scan with one worker have collected the same records, as multisets and so as
  sets; only the order may differ. For every \<open>n \<ge> 1\<close> a scan can finish.
\<close>

theorem match_set_independent_of_pool_size:
  "(0 < n \<and> reachable env n c roots s \<and> finished s \<and>
    reachable env 1 c roots s1 \<and> finished s1 \<longrightarrow>
      mset (out s) = mset (out s1) \<and> set (out s) = set (out s1) \<and>
      mset (fst (findSQLiteFiles_result s)) = mset (fst (findSQLiteFiles_result s1))) \<and>
   (0 < n \<longrightarrow> (\<exists>t. reachable env n c roots t \<and> finished t))"
proof -
  have same: "mset (out s) = mset (out s1) \<and> set (out s) = set (out s1) \<and>
      mset (fst (findSQLiteFiles_result s)) = mset (fst (findSQLiteFiles_result s1))"
    if "0 < n" and "reachable env n c roots s" and "finished s"
      and "reachable env 1 c roots s1" and "finished s1"
  proof -
    have inv: "scan_inv env n c roots s"
      using that(2,1) by (rule reachable_inv)
    have inv1: "scan_inv env 1 c roots s1"
      using that(4) by (rule reachable_inv) simp
    have m: "mset (out s) = mset (out s1)"
      using finished_state(2) [OF inv that(3)] finished_state(2) [OF inv1 that(5)] by simp
    then have "set (out s) = set (out s1)" by (rule mset_eq_setD)
    with m show ?thesis
      by (simp add: findSQLiteFiles_result_def)
  qed
  show ?thesis using same scan_finishes [of n env c roots] by blast
qed

theorem match_set_independent_of_pool_size_witness:
  "mset (out demo_final_2) = mset (out demo_final_1) \<and> out demo_final_2 \<noteq> out demo_final_1"
proof -
  have w: "(0::nat) < 2" by simp
  have "mset (out demo_final_2) = mset (out demo_final_1)"
    using match_set_independent_of_pool_size [of 2 demo_env FindSQLiteFiles demo_roots demo_final_2 demo_final_1]
      w demo_reachable_2 demo_reachable_1 demo_finished(1,2)
    by blast
  moreover have "out demo_final_2 \<noteq> out demo_final_1"
    by (simp add: demo_final_1_def demo_final_2_def)
  ultimately show ?thesis by blast
qed

text \<open>
  C10: under \<open>findSQLiteFiles\<close> nothing is ever written to standard error; when the scan
  has finished, the error channel is empty, every expected warning was taken from it, and
  the result holds the collected records and the walk error only. Under \<open>main\<close> the
  warnings written are the expected warnings.
\<close>

theorem findSQLiteFiles_discards_probe_errors:
  "(0 < workers \<and> reachable env workers FindSQLiteFiles roots s \<longrightarrow> stderr s = []) \<and>
   (0 < workers \<and> reachable env workers FindSQLiteFiles roots s \<and> finished s \<longrightarrow>
      ch_errs s = [] \<and>
      mset (errs_received s) = mset (concat (map (expected_warning env) (walked env roots))) \<and>
      findSQLiteFiles_result s = (out s, walkErr s)) \<and>
   (0 < workers \<and> reachable env workers Main roots s \<and> finished s \<longrightarrow>
      mset (stderr s) = mset (concat (map (expected_warning env) (walked env roots))))"
proof -
  have a: "stderr s = []" if "0 < workers" and "reachable env workers FindSQLiteFiles roots s"
  proof -
    have "scan_inv env workers FindSQLiteFiles roots s"
      using that(2,1) by (rule reachable_inv)
    then show ?thesis by (simp add: scan_inv_def)
  qed
  have b: "ch_errs s = [] \<and>
      mset (errs_received s) = mset (concat (map (expected_warning env) (walked env roots))) \<and>
      findSQLiteFiles_result s = (out s, walkErr s)"
    if "0 < workers" and "reachable env workers FindSQLiteFiles roots s" and "finished s"
  proof -
    have inv: "scan_inv env workers FindSQLiteFiles roots s"
      using that(2,1) by (rule reachable_inv)
    show ?thesis
      using finished_state(3,4,9) [OF inv that(3)] by (simp add: findSQLiteFiles_result_def)
  qed
  have c: "mset (stderr s) = mset (concat (map (expected_warning env) (walked env roots)))"
    if "0 < workers" and "reachable env workers Main roots s" and "finished s"
  proof -
    have inv: "scan_inv env workers Main roots s"
      using that(2,1) by (rule reachable_inv)
    show ?thesis
      using finished_state(3,6) [OF inv that(3)] by simp
  qed
  show ?thesis using a b c by blast
qed

theorem findSQLiteFiles_discards_probe_errors_witness:
  "stderr demo_final_2 = [] \<and>
   errs_received demo_final_2 = [Errorf ''/r/c.bin'' (PathError EIO)] \<and>
   findSQLiteFiles_result demo_final_2 = (out demo_final_2, walkErr demo_final_2) \<and>
   mset (stderr demo_final_main) = mset (concat (map (expected_warning demo_env) (walked demo_env demo_roots))) \<and>
   stderr demo_final_main = [Errorf ''/r/c.bin'' (PathError EIO)]"
proof -
  have w: "(0::nat) < 2" by simp
  note t2 = findSQLiteFiles_discards_probe_errors [of 2 demo_env demo_roots demo_final_2]
  note tm = findSQLiteFiles_discards_probe_errors [of 2 demo_env demo_roots demo_final_main]
  have 1: "stderr demo_final_2 = []"
    using t2 [THEN conjunct1] w demo_reachable_2 by blast
  have 2: "errs_received demo_final_2 = [Errorf ''/r/c.bin'' (PathError EIO)]"
    by (simp add: demo_final_2_def)
  have 3: "findSQLiteFiles_result demo_final_2 = (out demo_final_2, walkErr demo_final_2)"
    using t2 [THEN conjunct2, THEN conjunct1] w demo_reachable_2 demo_finished(2) by blast
  have 4: "mset (stderr demo_final_main)
      = mset (concat (map (expected_warning demo_env) (walked demo_env demo_roots)))"
    using tm [THEN conjunct2, THEN conjunct2] w demo_reachable_main demo_finished(3) by blast
  have 5: "stderr demo_final_main = [Errorf ''/r/c.bin'' (PathError EIO)]"
    by (simp add: demo_final_main_def demo_final_2_def)
  show ?thesis using 1 2 3 4 5 by blast
qed

end
